theory Spec2Isabelle
  imports Main "HOL-Library.Sublist"
begin

section \<open>Strings as the program uses them\<close>

text \<open>
  A Python \<open>str\<close> is modelled as a \<open>string\<close>, one \<open>char\<close> per code point; the model
  covers the code points below 256. In that range the decimal digits known to
  \<open>\d\<close> and to \<open>int()\<close> are \<open>0\<close> .. \<open>9\<close>, and the white space known to
  \<open>str.strip()\<close> and to \<open>int()\<close> is the set \<open>is_space\<close> below.
\<close>

definition dquote :: char where
  "dquote = CHR 0x22"

definition backslash :: char where
  "backslash = CHR 0x5C"

definition is_digit :: "char \<Rightarrow> bool" where
  "is_digit c \<longleftrightarrow> (48::nat) \<le> of_char c \<and> of_char c \<le> (57::nat)"

definition is_space :: "char \<Rightarrow> bool" where
  "is_space c \<longleftrightarrow>
     (let n = (of_char c :: nat)
      in (9 \<le> n \<and> n \<le> 13) \<or> (28 \<le> n \<and> n \<le> 32) \<or> n = 133 \<or> n = 160)"

text \<open>\<open>s.strip(chars)\<close> removes the characters of \<open>chars\<close> at both ends of \<open>s\<close>.\<close>

definition strip_where :: "(char \<Rightarrow> bool) \<Rightarrow> string \<Rightarrow> string" where
  "strip_where p s = rev (dropWhile p (rev (dropWhile p s)))"

definition py_strip_chars :: "string \<Rightarrow> string \<Rightarrow> string" where
  "py_strip_chars chars s = strip_where (\<lambda>c. c \<in> set chars) s"

definition py_strip :: "string \<Rightarrow> string" where
  "py_strip s = strip_where is_space s"

subsection \<open>int() on a string\<close>

text \<open>
  \<open>int(s)\<close> strips white space at both ends, reads an optional sign, and then decimal
  digits, where single underscores may stand between digits; anything else is a
  \<open>ValueError\<close> (\<open>None\<close>). The interpreter's optional limit on the number of digits
  is not part of the model.
\<close>

definition digit_val :: "char \<Rightarrow> int" where
  "digit_val c = int (of_char c) - 48"

definition digits_value :: "string \<Rightarrow> int" where
  "digits_value ds = foldl (\<lambda>acc c. 10 * acc + digit_val c) 0 ds"

fun no_double_underscore :: "string \<Rightarrow> bool" where
  "no_double_underscore (a # b # cs) =
     (\<not> (a = CHR ''_'' \<and> b = CHR ''_'') \<and> no_double_underscore (b # cs))"
| "no_double_underscore cs = True"

definition valid_digits :: "string \<Rightarrow> bool" where
  "valid_digits ds \<longleftrightarrow>
     ds \<noteq> [] \<and> is_digit (hd ds) \<and> is_digit (last ds)
     \<and> list_all (\<lambda>c. is_digit c \<or> c = CHR ''_'') ds \<and> no_double_underscore ds"

definition py_digits :: "string \<Rightarrow> int option" where
  "py_digits ds = (if valid_digits ds then Some (digits_value (filter is_digit ds)) else None)"

definition py_int_str :: "string \<Rightarrow> int option" where
  "py_int_str s =
     (case py_strip s of
        [] \<Rightarrow> None
      | c # r \<Rightarrow>
          if c = CHR ''-'' then map_option uminus (py_digits r)
          else if c = CHR ''+'' then py_digits r
          else py_digits (c # r))"

subsection \<open>str.split\<close>

text \<open>\<open>s.split(sep)\<close> for a separator of one character, and \<open>s.split(sep, 1)\<close>
  for an \<open>s\<close> that holds the separator.\<close>

fun split_on :: "char \<Rightarrow> string \<Rightarrow> string list" where
  "split_on sep [] = [[]]"
| "split_on sep (c # cs) =
     (if c = sep then [] # split_on sep cs
      else (case split_on sep cs of w # ws \<Rightarrow> (c # w) # ws | [] \<Rightarrow> [[c]]))"

definition split_first :: "char \<Rightarrow> string \<Rightarrow> string \<times> string" where
  "split_first sep s = (takeWhile (\<lambda>c. c \<noteq> sep) s, tl (dropWhile (\<lambda>c. c \<noteq> sep) s))"

section \<open>sanitize\<close>

text \<open>
  \<^verbatim>\<open>_ILLEGAL = r'[<>:"/\\|?*\x00-\x1F]'\<close>
  \<^verbatim>\<open>def sanitize(name): return re.sub(_ILLEGAL, "_", name).strip(" .")\<close>
  The character class matches one character at a time, so \<open>re.sub\<close> is a map over the
  characters.
\<close>

definition illegal_chars :: "char list" where
  "illegal_chars = ''<>:'' @ [dquote] @ ''/'' @ [backslash] @ ''|?*''"

definition ILLEGAL :: "char \<Rightarrow> bool" where
  "ILLEGAL c \<longleftrightarrow> c \<in> set illegal_chars \<or> (of_char c :: nat) \<le> 0x1F"

definition re_sub_ILLEGAL :: "string \<Rightarrow> string" where
  "re_sub_ILLEGAL name = map (\<lambda>c. if ILLEGAL c then CHR ''_'' else c) name"

definition sanitize :: "string \<Rightarrow> string" where
  "sanitize name = py_strip_chars '' .'' (re_sub_ILLEGAL name)"

text \<open>
  \<open>mod_dir / sanitize(name)\<close>: a path is the list of its components. A sanitized
  name holds no separator, so it is one component, or the empty string, which
  \<open>pathlib\<close> ignores.
\<close>

type_synonym path = "string list"

definition path_div :: "path \<Rightarrow> string \<Rightarrow> path" where
  "path_div p name = (if name = [] then p else p @ [name])"

text \<open>
  The reading of the specification: a control character is a character of the
  category \<open>Cc\<close> (codes 0 to 31 and 127 to 159), and only the end of the name is
  trimmed.
\<close>

definition is_control :: "char \<Rightarrow> bool" where
  "is_control c \<longleftrightarrow> (of_char c :: nat) \<le> 31 \<or> (127 \<le> (of_char c :: nat) \<and> (of_char c :: nat) \<le> 159)"

definition sanitize_as_specified :: "string \<Rightarrow> string" where
  "sanitize_as_specified name =
     rev (dropWhile (\<lambda>c. c \<in> set '' .'')
       (rev (map (\<lambda>c. if c \<in> set illegal_chars \<or> is_control c then CHR ''_'' else c) name)))"

section \<open>parse_choices\<close>

text \<open>
  The loop state is the list \<open>nums\<close> and the set \<open>seen\<close>. A \<open>ValueError\<close> of
  \<open>int()\<close> leaves the \<open>try\<close> block before anything was added, so the state is
  unchanged (\<open>continue\<close>).
\<close>

type_synonym choices = "int list \<times> int set"








section \<open>find_file_ids_in_html\<close>

text \<open>
  \<open>re.finditer(lit + r"(\d+)", html)\<close> for a literal \<open>lit\<close>: the scan tries each
  position from the left; a position matches when the literal stands there followed by a
  digit, the group takes every digit that follows (greedy, and nothing comes after the
  group), and the scan goes on behind the match. The result is the list of the groups.
\<close>

definition digit_follows :: "string \<Rightarrow> string \<Rightarrow> bool" where
  "digit_follows lit s \<longleftrightarrow>
     prefix lit s \<and> (case drop (length lit) s of [] \<Rightarrow> False | d # _ \<Rightarrow> is_digit d)"

function finditer_digits :: "string \<Rightarrow> string \<Rightarrow> string list" where
  "finditer_digits lit [] = []"
| "finditer_digits lit (c # cs) =
     (if digit_follows lit (c # cs)
      then takeWhile is_digit (drop (length lit) (c # cs))
             # finditer_digits lit (dropWhile is_digit (drop (length lit) (c # cs)))
      else finditer_digits lit cs)"
  by pat_completeness auto
termination
proof (relation "measure (\<lambda>(lit, s). length s)")
  show "wf (measure (\<lambda>(lit, s). length s))" by simp
next
  fix lit :: string and c :: char and cs :: string
  assume "digit_follows lit (c # cs)"
  then obtain d r where dr: "drop (length lit) (c # cs) = d # r" and "is_digit d"
    by (auto simp: digit_follows_def split: list.splits)
  then have "length (dropWhile is_digit (drop (length lit) (c # cs))) \<le> length r"
    by (simp add: length_dropWhile_le)
  also have "length r < length (drop (length lit) (c # cs))" by (simp add: dr)
  also have "\<dots> \<le> length (c # cs)" by simp
  finally show "((lit, dropWhile is_digit (drop (length lit) (c # cs))), (lit, c # cs))
          \<in> measure (\<lambda>(lit, s). length s)" by simp
next
  fix lit :: string and c :: char and cs :: string
  show "((lit, cs), (lit, c # cs)) \<in> measure (\<lambda>(lit, s). length s)" by simp
qed

text \<open>\<open>try: ids.add(int(m.group(1)))\<close> \<open>except ValueError: pass\<close>\<close>

definition add_id :: "string \<Rightarrow> int set \<Rightarrow> int set" where
  "add_id group1 ids = (case py_int_str group1 of Some n \<Rightarrow> insert n ids | None \<Rightarrow> ids)"

definition find_file_ids_in_html :: "string \<Rightarrow> int set" where
  "find_file_ids_in_html html =
     fold add_id (finditer_digits ''/api/v1/files/'' html)
       (fold add_id (finditer_digits ''/files/'' html) {})"

text \<open>
  The reading of the specification: an occurrence of \<open>lit<digits>\<close> in the text is a place
  where \<open>lit\<close> stands, followed by a digit; it references the number written by the digits
  that follow \<open>lit\<close> there.
\<close>

definition occurrences :: "string \<Rightarrow> string \<Rightarrow> string list" where
  "occurrences lit html = filter (digit_follows lit) (suffixes html)"

definition referenced_id :: "string \<Rightarrow> string \<Rightarrow> int" where
  "referenced_id lit t = digits_value (takeWhile is_digit (drop (length lit) t))"

definition referenced_ids :: "string \<Rightarrow> string \<Rightarrow> int set" where
  "referenced_ids lit html = set (map (referenced_id lit) (occurrences lit html))"


text \<open>No match of \<open>lit<digits>\<close> starts inside another one.\<close>

definition no_overlap :: "string \<Rightarrow> bool" where
  "no_overlap lit \<longleftrightarrow>
     lit \<noteq> [] \<and> \<not> is_digit (hd lit)
     \<and> list_all (\<lambda>ls. ls = [] \<or> ls = lit \<or> \<not> prefix ls lit \<or> \<not> is_digit (lit ! length ls))
          (suffixes lit)"

section \<open>JSON values, requests and responses\<close>

text \<open>
  The values that \<open>resp.json()\<close> returns. A dictionary lists each key once. Floating
  point numbers are left out.
\<close>

datatype json =
    JNull
  | JBool bool
  | JInt int
  | JStr string
  | JList "json list"
  | JObj "(string \<times> json) list"

text \<open>Truth value of a value in \<open>if x\<close>, \<open>x or y\<close>, \<open>while x\<close>.\<close>

fun truthy :: "json \<Rightarrow> bool" where
  "truthy JNull = False"
| "truthy (JBool b) = b"
| "truthy (JInt n) = (n \<noteq> 0)"
| "truthy (JStr s) = (s \<noteq> [])"
| "truthy (JList xs) = (xs \<noteq> [])"
| "truthy (JObj kvs) = (kvs \<noteq> [])"

text \<open>\<open>d.get(key)\<close> on a dictionary: \<open>None\<close> for a missing key.\<close>

definition dict_get :: "(string \<times> json) list \<Rightarrow> string \<Rightarrow> json" where
  "dict_get d k = (case map_of d k of None \<Rightarrow> JNull | Some v \<Rightarrow> v)"

type_synonym params = "(string \<times> json) list"

text \<open>
  An event of a run is a request \<open>session.get(url, params=params)\<close> or a
  \<open>time.sleep(seconds)\<close>.
\<close>

datatype event = Get string "params option" | Sleep int

record response =
  status :: nat
  headers :: "string \<Rightarrow> string option"
  body :: "json option"
  chunks :: "string list"
  broken :: bool

text \<open>
  The session: what \<open>session.get\<close> returns depends on the request and on what happened
  before; \<open>None\<close> stands for an exception of \<open>requests\<close> raised by the call itself (no
  connection, a timeout, an unusable URL).
\<close>

type_synonym server = "event list \<Rightarrow> string \<Rightarrow> params option \<Rightarrow> response option"

datatype error =
    ConnectionError
  | HTTPError nat
  | JSONDecodeError
  | ChunkedEncodingError
  | ValueError
  | TypeError
  | AttributeError
  | IndexError
  | OSError

text \<open>The errors that \<open>except requests.RequestException\<close> catches.\<close>

fun is_RequestException :: "error \<Rightarrow> bool" where
  "is_RequestException ConnectionError = True"
| "is_RequestException (HTTPError _) = True"
| "is_RequestException JSONDecodeError = True"
| "is_RequestException ChunkedEncodingError = True"
| "is_RequestException _ = False"

definition raise_for_status :: "response \<Rightarrow> error + unit" where
  "raise_for_status resp =
     (if 400 \<le> status resp \<and> status resp < 600 then Inl (HTTPError (status resp)) else Inr ())"

definition resp_json :: "response \<Rightarrow> error + json" where
  "resp_json resp = (case body resp of None \<Rightarrow> Inl JSONDecodeError | Some v \<Rightarrow> Inr v)"

section \<open>get_all\<close>

text \<open>The records of one page: \<open>data\<close> itself when it is a list, else \<open>data.get("items", [])\<close>
  when that is a list; \<open>get\<close> on a value that is no dictionary is an \<open>AttributeError\<close>.\<close>

fun page_records :: "json \<Rightarrow> error + json list" where
  "page_records (JList xs) = Inr xs"
| "page_records (JObj d) = (case map_of d ''items'' of Some (JList xs) \<Rightarrow> Inr xs | _ \<Rightarrow> Inr [])"
| "page_records _ = Inl AttributeError"

text \<open>The \<open>rel\<close> of one part of the header: the last attribute that starts with \<open>rel=\<close>.\<close>

definition rel_of :: "string list \<Rightarrow> string option" where
  "rel_of attrs =
     fold (\<lambda>attr rel. if prefix ''rel='' attr
                        then Some (py_strip_chars [dquote] (snd (split_first (CHR ''='') attr)))
                        else rel) attrs None"

definition link_part :: "string \<Rightarrow> string option \<Rightarrow> string option" where
  "link_part part next_url =
     (let segs = map py_strip (split_on (CHR '';'') part) in
      if length segs < 2 then next_url
      else if rel_of (tl segs) = Some ''next'' then Some (py_strip_chars ''<> '' (hd segs))
      else next_url)"

definition next_link :: "string \<Rightarrow> string option" where
  "next_link link = fold link_part (split_on (CHR '','') link) None"

text \<open>
  The loop state: \<open>url\<close> (a string or \<open>None\<close>), \<open>params\<close>, \<open>results\<close>, and the trace of
  the session. One run of the loop body either leaves the loop, with the list or with
  an exception, or gives the next state.
\<close>

type_synonym loop_state = "string option \<times> params option \<times> json list \<times> event list"

type_synonym 'a outcome = "(error + 'a) \<times> event list"

definition get_all_step :: "server \<Rightarrow> loop_state \<Rightarrow> json list outcome + loop_state" where
  "get_all_step srv st =
     (case st of (url, params, results, tr) \<Rightarrow>
        (case url of
           None \<Rightarrow> Inl (Inr results, tr)
         | Some u \<Rightarrow>
             if u = [] then Inl (Inr results, tr)
             else
               (let tr' = tr @ [Get u params] in
                case srv tr u params of
                  None \<Rightarrow> Inl (Inl ConnectionError, tr')
                | Some resp \<Rightarrow>
                    (case raise_for_status resp of
                       Inl e \<Rightarrow> Inl (Inl e, tr')
                     | Inr _ \<Rightarrow>
                         (case resp_json resp of
                            Inl e \<Rightarrow> Inl (Inl e, tr')
                          | Inr data \<Rightarrow>
                              (case page_records data of
                                 Inl e \<Rightarrow> Inl (Inl e, tr')
                               | Inr recs \<Rightarrow>
                                   Inr (next_link (case headers resp ''Link'' of None \<Rightarrow> [] | Some l \<Rightarrow> l),
                                        None, results @ recs, tr')))))))"

partial_function (option) get_all_loop :: "server \<Rightarrow> loop_state \<Rightarrow> json list outcome option" where
  "get_all_loop srv st =
     (case get_all_step srv st of Inl r \<Rightarrow> Some r | Inr st' \<Rightarrow> get_all_loop srv st')"

declare get_all_loop.simps [code]

definition get_all :: "server \<Rightarrow> string \<Rightarrow> params option \<Rightarrow> event list \<Rightarrow> json list outcome option" where
  "get_all srv url params tr = get_all_loop srv (Some url, params, [], tr)"

text \<open>The loop body run at most \<open>n\<close> times.\<close>

fun get_all_steps :: "server \<Rightarrow> nat \<Rightarrow> loop_state \<Rightarrow> json list outcome + loop_state" where
  "get_all_steps srv 0 st = Inr st"
| "get_all_steps srv (Suc n) st =
     (case get_all_step srv st of Inl r \<Rightarrow> Inl r | Inr st' \<Rightarrow> get_all_steps srv n st')"


text \<open>
  A \<open>Link\<close> header as the server writes it: entries \<open><URL>; rel="name"\<close>, separated by
  commas. In a well-formed entry neither the URL nor the name holds a comma, a
  semicolon, an angle bracket, a space or a double quote.
\<close>

definition link_entry :: "string \<times> string \<Rightarrow> string" where
  "link_entry l = ''<'' @ fst l @ ''>; rel='' @ [dquote] @ snd l @ [dquote]"

fun link_header :: "(string \<times> string) list \<Rightarrow> string" where
  "link_header [] = []"
| "link_header [l] = link_entry l"
| "link_header (l # ls) = link_entry l @ '','' @ link_header ls"

definition clean :: "string \<Rightarrow> bool" where
  "clean s = list_all (\<lambda>c. c \<notin> set '',;<> '' \<and> c \<noteq> dquote) s"

definition clean_links :: "(string \<times> string) list \<Rightarrow> bool" where
  "clean_links ls = list_all (\<lambda>l. clean (fst l) \<and> clean (snd l)) ls"

text \<open>The URL with the relation \<open>next\<close> (the last one, should there be several).\<close>

definition rel_next :: "(string \<times> string) list \<Rightarrow> string option" where
  "rel_next ls = fold (\<lambda>l nxt. if snd l = ''next'' then Some (fst l) else nxt) ls None"


text \<open>
  The reading of the specification: a page is a response with a success status whose
  body is a list of records, or an object that holds the list under \<open>items\<close>; it is
  served at a URL and carries the links of its \<open>Link\<close> header. In a chain of pages the
  session answers the request for the first URL, with the caller's parameters, by the
  first page, and the request for the \<open>next\<close> URL of a page, without parameters, by
  the page after it; the last page has no \<open>next\<close> link.
\<close>

definition page_ok :: "response \<Rightarrow> bool" where
  "page_ok r \<longleftrightarrow>
     \<not> (400 \<le> status r \<and> status r < 600)
     \<and> (case body r of
          Some (JList xs) \<Rightarrow> True
        | Some (JObj d) \<Rightarrow> (case map_of d ''items'' of Some (JList xs) \<Rightarrow> True | _ \<Rightarrow> False)
        | _ \<Rightarrow> False)"

definition records :: "response \<Rightarrow> json list" where
  "records r =
     (case body r of
        Some (JList xs) \<Rightarrow> xs
      | Some (JObj d) \<Rightarrow> (case map_of d ''items'' of Some (JList xs) \<Rightarrow> xs | _ \<Rightarrow> [])
      | _ \<Rightarrow> [])"

definition carries_links :: "response \<Rightarrow> (string \<times> string) list \<Rightarrow> bool" where
  "carries_links r ls \<longleftrightarrow>
     clean_links ls
     \<and> (headers r ''Link'' = Some (link_header ls) \<or> (ls = [] \<and> headers r ''Link'' = None))"

type_synonym page = "string \<times> (string \<times> string) list \<times> response"

fun chain :: "server \<Rightarrow> event list \<Rightarrow> params option \<Rightarrow> page list \<Rightarrow> bool" where
  "chain srv tr ps [] = False"
| "chain srv tr ps [(u, ls, r)] =
     (u \<noteq> [] \<and> srv tr u ps = Some r \<and> page_ok r \<and> carries_links r ls
      \<and> rel_next ls = None)"
| "chain srv tr ps ((u, ls, r) # (u', ls', r') # rest) =
     (u \<noteq> [] \<and> srv tr u ps = Some r \<and> page_ok r \<and> carries_links r ls
      \<and> rel_next ls = Some u'
      \<and> chain srv (tr @ [Get u ps]) None ((u', ls', r') # rest))"

fun requests_of :: "params option \<Rightarrow> page list \<Rightarrow> event list" where
  "requests_of ps [] = []"
| "requests_of ps ((u, ls, r) # rest) = Get u ps # requests_of None rest"

text \<open>A session that answers every request by the same response.\<close>

definition always :: "response \<Rightarrow> server" where
  "always r = (\<lambda>tr e ps. Some r)"


text \<open>Example data: three pages of a collection, and a session that serves them.\<close>

definition mk_page :: "(string \<times> string) list \<Rightarrow> json \<Rightarrow> response" where
  "mk_page ls data =
     \<lparr>status = 200,
      headers = (\<lambda>h. if h = ''Link'' then Some (link_header ls) else None),
      body = Some data, chunks = [], broken = False\<rparr>"

definition three_pages :: "page list" where
  "three_pages =
     [(''https://c.example/api/v1/courses'',
       [(''https://c.example/api/v1/courses?page=1'', ''current''),
        (''https://c.example/api/v1/courses?page=2'', ''next'')],
       mk_page [(''https://c.example/api/v1/courses?page=1'', ''current''),
                (''https://c.example/api/v1/courses?page=2'', ''next'')]
         (JList [JObj [(''id'', JInt 1)], JObj [(''id'', JInt 2)]])),
      (''https://c.example/api/v1/courses?page=2'',
       [(''https://c.example/api/v1/courses?page=3'', ''next''),
        (''https://c.example/api/v1/courses?page=1'', ''first'')],
       mk_page [(''https://c.example/api/v1/courses?page=3'', ''next''),
                (''https://c.example/api/v1/courses?page=1'', ''first'')]
         (JObj [(''items'', JList [JObj [(''id'', JInt 3)]])])),
      (''https://c.example/api/v1/courses?page=3'',
       [(''https://c.example/api/v1/courses?page=1'', ''first'')],
       mk_page [(''https://c.example/api/v1/courses?page=1'', ''first'')]
         (JList [JObj [(''id'', JInt 4)]]))]"

definition serve :: "page list \<Rightarrow> server" where
  "serve pages = (\<lambda>tr e ps. map_of (map (\<lambda>p. (fst p, snd (snd p))) pages) e)"

section \<open>The run: session, file system, and the program's context\<close>

text \<open>
  The directory tree the program writes to: a path holds a file with its bytes, or a
  directory. Failures of the operating system other than writing to a path that is a
  directory, or making a directory where a file is, are not part of the model.
\<close>

datatype node = File string | Dir

record world =
  trace :: "event list"
  files :: "path \<Rightarrow> node option"

text \<open>
  \<open>base\<close> and \<open>course_id\<close> are the variables of \<open>main\<close>; \<open>fmt\<close> is the text that an
  f-string (and \<open>str()\<close>) gives for a value that is not a string; \<open>dir_size\<close> is what
  \<open>stat().st_size\<close> reports for a directory.
\<close>

record ctx =
  base :: string
  course_id :: int
  fmt :: "json \<Rightarrow> string"
  base_out_dir :: path
  dir_size :: int

definition py_str :: "ctx \<Rightarrow> json \<Rightarrow> string" where
  "py_str c v = (case v of JStr s \<Rightarrow> s | _ \<Rightarrow> fmt c v)"

definition items_url :: "ctx \<Rightarrow> json \<Rightarrow> string" where
  "items_url c mid =
     base c @ ''/courses/'' @ fmt c (JInt (course_id c)) @ ''/modules/'' @ py_str c mid @ ''/items''"

definition page_url :: "ctx \<Rightarrow> json \<Rightarrow> string" where
  "page_url c slug = base c @ ''/courses/'' @ fmt c (JInt (course_id c)) @ ''/pages/'' @ py_str c slug"

definition assignment_url :: "ctx \<Rightarrow> json \<Rightarrow> string" where
  "assignment_url c aid =
     base c @ ''/courses/'' @ fmt c (JInt (course_id c)) @ ''/assignments/'' @ py_str c aid"

definition file_url :: "ctx \<Rightarrow> int \<Rightarrow> string" where
  "file_url c fid = base c @ ''/files/'' @ fmt c (JInt fid)"

text \<open>\<open>x.get(key)\<close>: an \<open>AttributeError\<close> when \<open>x\<close> is no dictionary.\<close>

definition py_get :: "json \<Rightarrow> string \<Rightarrow> error + json" where
  "py_get x k = (case x of JObj d \<Rightarrow> Inr (dict_get d k) | _ \<Rightarrow> Inl AttributeError)"

text \<open>\<open>a or b\<close>\<close>

definition py_or :: "json \<Rightarrow> json \<Rightarrow> json" where
  "py_or a b = (if truthy a then a else b)"

text \<open>\<open>int(v)\<close> for a value of the data; \<open>True\<close> and \<open>False\<close> are the integers 1 and 0.\<close>

fun py_int :: "json \<Rightarrow> error + int" where
  "py_int (JInt n) = Inr n"
| "py_int (JBool b) = Inr (if b then 1 else 0)"
| "py_int (JStr s) = (case py_int_str s of None \<Rightarrow> Inl ValueError | Some n \<Rightarrow> Inr n)"
| "py_int _ = Inl TypeError"

text \<open>A \<open>for\<close> loop whose body may raise: the exception ends the loop.\<close>

fun for_loop ::
  "('a \<Rightarrow> 's \<Rightarrow> world \<Rightarrow> (error + 's) \<times> world) \<Rightarrow> 'a list \<Rightarrow> 's \<Rightarrow> world \<Rightarrow> (error + 's) \<times> world"
where
  "for_loop step [] s w = (Inr s, w)"
| "for_loop step (x # xs) s w =
     (case step x s w of
        (Inl e, w') \<Rightarrow> (Inl e, w')
      | (Inr s', w') \<Rightarrow> for_loop step xs s' w')"

definition session_get :: "server \<Rightarrow> string \<Rightarrow> params option \<Rightarrow> world \<Rightarrow> (error + response) \<times> world" where
  "session_get srv url ps w =
     ((case srv (trace w) url ps of None \<Rightarrow> Inl ConnectionError | Some r \<Rightarrow> Inr r),
      w\<lparr>trace := trace w @ [Get url ps]\<rparr>)"

section \<open>download_to\<close>

text \<open>
  The part of \<open>download_to\<close> that both branches share: \<open>Content-Length\<close> is read with
  \<open>int()\<close> for the progress bar, the target is opened for writing (which empties it),
  and the chunks are written one after the other; a stream that breaks raises after the
  chunks that arrived.
\<close>

definition save_stream :: "response \<Rightarrow> path \<Rightarrow> world \<Rightarrow> (error + unit) \<times> world" where
  "save_stream resp target w =
     (case (case headers resp ''Content-Length'' of
              None \<Rightarrow> Inr 0
            | Some h \<Rightarrow> if h = [] then Inr 0 else py_int (JStr h)) of
        Inl e \<Rightarrow> (Inl e, w)
      | Inr content_length \<Rightarrow>
          (case files w target of
             Some Dir \<Rightarrow> (Inl OSError, w)
           | _ \<Rightarrow>
               (if broken resp then Inl ChunkedEncodingError else Inr (),
                w\<lparr>files := (files w)(target \<mapsto> File (concat (chunks resp)))\<rparr>)))"

definition download_to :: "server \<Rightarrow> string \<Rightarrow> path \<Rightarrow> world \<Rightarrow> (error + unit) \<times> world" where
  "download_to srv url target_path w =
     (case session_get srv url None w of
        (Inl e, w1) \<Rightarrow> (Inl e, w1)
      | (Inr resp, w1) \<Rightarrow>
          if status resp = 429 then
            (case py_int (JStr (case headers resp ''Retry-After'' of None \<Rightarrow> ''3'' | Some h \<Rightarrow> h)) of
               Inl e \<Rightarrow> (Inl e, w1)
             | Inr secs \<Rightarrow>
                 if secs < 0 then (Inl ValueError, w1)
                 else
                   (case session_get srv url None (w1\<lparr>trace := trace w1 @ [Sleep secs]\<rparr>) of
                      (Inl e, w2) \<Rightarrow> (Inl e, w2)
                    | (Inr r2, w2) \<Rightarrow>
                        (case raise_for_status r2 of
                           Inl e \<Rightarrow> (Inl e, w2)
                         | Inr _ \<Rightarrow> save_stream r2 target_path w2)))
          else
            (case raise_for_status resp of
               Inl e \<Rightarrow> (Inl e, w1)
             | Inr _ \<Rightarrow> save_stream resp target_path w1))"

section \<open>main: harvesting the file identifiers of a module\<close>

text \<open>A) Direct File items. The \<open>try\<close> catches what \<open>int()\<close> raises.\<close>

definition direct_file :: "json \<Rightarrow> int set \<Rightarrow> world \<Rightarrow> (error + int set) \<times> world" where
  "direct_file it file_ids w =
     (case it of
        JObj d \<Rightarrow>
          if dict_get d ''type'' = JStr ''File'' \<and> truthy (dict_get d ''content_id'')
          then (case py_int (dict_get d ''content_id'') of
                  Inl e \<Rightarrow> (Inr file_ids, w)
                | Inr n \<Rightarrow> (Inr (insert n file_ids), w))
          else (Inr file_ids, w)
      | _ \<Rightarrow> (Inl AttributeError, w))"

text \<open>B) Page items: the file links in the body of the page.\<close>

definition page_body :: "response \<Rightarrow> error + string" where
  "page_body pr =
     (case raise_for_status pr of
        Inl e \<Rightarrow> Inl e
      | Inr _ \<Rightarrow>
          (case resp_json pr of
             Inl e \<Rightarrow> Inl e
           | Inr data \<Rightarrow>
               (case py_get data ''body'' of
                  Inl e \<Rightarrow> Inl e
                | Inr b \<Rightarrow> (case py_or b (JStr []) of JStr html \<Rightarrow> Inr html | _ \<Rightarrow> Inl TypeError))))"

definition page_links :: "ctx \<Rightarrow> server \<Rightarrow> json \<Rightarrow> int set \<Rightarrow> world \<Rightarrow> (error + int set) \<times> world" where
  "page_links c srv it file_ids w =
     (case it of
        JObj d \<Rightarrow>
          if dict_get d ''type'' \<noteq> JStr ''Page'' then (Inr file_ids, w)
          else if \<not> truthy (dict_get d ''page_url'') then (Inr file_ids, w)
          else
            (case session_get srv (page_url c (dict_get d ''page_url'')) None w of
               (Inl e, w1) \<Rightarrow> (Inl e, w1)
             | (Inr pr, w1) \<Rightarrow>
                 if status pr = 403 then (Inr file_ids, w1)
                 else
                   (case page_body pr of
                      Inl e \<Rightarrow> (Inl e, w1)
                    | Inr html \<Rightarrow> (Inr (file_ids \<union> find_file_ids_in_html html), w1)))
      | _ \<Rightarrow> (Inl AttributeError, w))"

text \<open>
  C) Assignment items: the attachments. Iterating over a value that is no list raises
  (a number or a Boolean cannot be iterated; the elements of a text or of a dictionary
  are texts, which have no \<open>get\<close>). \<open>isinstance(fid, int)\<close> holds for a Boolean too.
\<close>

definition attachment :: "json \<Rightarrow> int set \<Rightarrow> world \<Rightarrow> (error + int set) \<times> world" where
  "attachment att file_ids w =
     (case py_get att ''id'' of
        Inl e \<Rightarrow> (Inl e, w)
      | Inr (JInt n) \<Rightarrow> (Inr (insert n file_ids), w)
      | Inr (JBool b) \<Rightarrow> (Inr (insert (if b then 1 else 0) file_ids), w)
      | Inr _ \<Rightarrow> (Inr file_ids, w))"

definition iterate :: "json \<Rightarrow> error + json list" where
  "iterate v =
     (case v of
        JList xs \<Rightarrow> Inr xs
      | JStr s \<Rightarrow> Inr (map (\<lambda>ch. JStr [ch]) s)
      | JObj d \<Rightarrow> Inr (map (\<lambda>kv. JStr (fst kv)) d)
      | _ \<Rightarrow> Inl TypeError)"

definition assignment_attachments :: "response \<Rightarrow> error + json list" where
  "assignment_attachments ar =
     (case raise_for_status ar of
        Inl e \<Rightarrow> Inl e
      | Inr _ \<Rightarrow>
          (case resp_json ar of
             Inl e \<Rightarrow> Inl e
           | Inr data \<Rightarrow>
               (case py_get data ''attachments'' of
                  Inl e \<Rightarrow> Inl e
                | Inr a \<Rightarrow> iterate (py_or a (JList [])))))"

definition attachments :: "ctx \<Rightarrow> server \<Rightarrow> json \<Rightarrow> int set \<Rightarrow> world \<Rightarrow> (error + int set) \<times> world" where
  "attachments c srv it file_ids w =
     (case it of
        JObj d \<Rightarrow>
          if \<not> (dict_get d ''type'' = JStr ''Assignment'' \<and> truthy (dict_get d ''content_id''))
          then (Inr file_ids, w)
          else
            (case session_get srv (assignment_url c (dict_get d ''content_id'')) None w of
               (Inl e, w1) \<Rightarrow> (Inl e, w1)
             | (Inr ar, w1) \<Rightarrow>
                 if status ar = 403 then (Inr file_ids, w1)
                 else
                   (case assignment_attachments ar of
                      Inl e \<Rightarrow> (Inl e, w1)
                    | Inr atts \<Rightarrow> for_loop attachment atts file_ids w1))
      | _ \<Rightarrow> (Inl AttributeError, w))"

text \<open>The three loops over the items; \<open>main\<close> runs them in the order A, B, C.\<close>

datatype strategy = DirectFiles | PageLinks | Attachments

fun run_strategy ::
  "ctx \<Rightarrow> server \<Rightarrow> json list \<Rightarrow> strategy \<Rightarrow> int set \<Rightarrow> world \<Rightarrow> (error + int set) \<times> world"
where
  "run_strategy c srv items DirectFiles file_ids w = for_loop direct_file items file_ids w"
| "run_strategy c srv items PageLinks file_ids w = for_loop (page_links c srv) items file_ids w"
| "run_strategy c srv items Attachments file_ids w = for_loop (attachments c srv) items file_ids w"

definition harvest_in ::
  "strategy list \<Rightarrow> ctx \<Rightarrow> server \<Rightarrow> json list \<Rightarrow> world \<Rightarrow> (error + int set) \<times> world"
where
  "harvest_in strategies c srv items w = for_loop (run_strategy c srv items) strategies {} w"

definition harvest :: "ctx \<Rightarrow> server \<Rightarrow> json list \<Rightarrow> world \<Rightarrow> (error + int set) \<times> world" where
  "harvest = harvest_in [DirectFiles, PageLinks, Attachments]"


section \<open>main: downloading the files of a module\<close>

text \<open>\<open>target.exists()\<close> and \<open>target.stat().st_size\<close>\<close>

definition st_size :: "ctx \<Rightarrow> node \<Rightarrow> int" where
  "st_size c nd = (case nd of File bytes \<Rightarrow> int (length bytes) | Dir \<Rightarrow> dir_size c)"

text \<open>
  What \<open>main\<close> reads from the metadata of a file: the name, the URL and the size.
  \<open>sanitize\<close> raises a \<open>TypeError\<close> on a name that is no text; it is called after the
  test of the URL.
\<close>

definition meta_name :: "ctx \<Rightarrow> (string \<times> json) list \<Rightarrow> int \<Rightarrow> json" where
  "meta_name c meta fid =
     py_or (dict_get meta ''display_name'')
       (py_or (dict_get meta ''filename'') (JStr (''file_'' @ fmt c (JInt fid))))"

definition meta_url :: "(string \<times> json) list \<Rightarrow> json" where
  "meta_url meta = py_or (dict_get meta ''url'') (dict_get meta ''download_url'')"

definition meta_size :: "(string \<times> json) list \<Rightarrow> error + int" where
  "meta_size meta = py_int (py_or (dict_get meta ''size'') (JInt 0))"

text \<open>The state of the loop over the files: \<open>downloaded\<close> and \<open>skipped\<close>.\<close>

type_synonym counts = "nat \<times> nat"

definition fetch_file ::
  "ctx \<Rightarrow> server \<Rightarrow> path \<Rightarrow> json \<Rightarrow> json \<Rightarrow> int \<Rightarrow> counts \<Rightarrow> world \<Rightarrow> (error + counts) \<times> world"
where
  "fetch_file c srv mod_dir name url sz cnt w =
     (case name of
        JStr nm \<Rightarrow>
          (let target = path_div mod_dir (sanitize nm) in
           if (case files w target of
                 None \<Rightarrow> False
               | Some nd \<Rightarrow> sz \<noteq> 0 \<and> st_size c nd = sz)
           then (Inr (fst cnt, snd cnt + 1), w)
           else
             (case download_to srv (py_str c url) target w of
                (Inr _, w') \<Rightarrow> (Inr (fst cnt + 1, snd cnt), w')
              | (Inl e, w') \<Rightarrow>
                  if is_RequestException e then (Inr cnt, w') else (Inl e, w')))
      | _ \<Rightarrow> (Inl TypeError, w))"

definition process_file ::
  "ctx \<Rightarrow> server \<Rightarrow> path \<Rightarrow> int \<Rightarrow> counts \<Rightarrow> world \<Rightarrow> (error + counts) \<times> world"
where
  "process_file c srv mod_dir fid cnt w =
     (case session_get srv (file_url c fid) None w of
        (Inl e, w1) \<Rightarrow> (Inl e, w1)
      | (Inr fr, w1) \<Rightarrow>
          if status fr = 403 then (Inr cnt, w1)
          else
            (case raise_for_status fr of
               Inl e \<Rightarrow> (Inl e, w1)
             | Inr _ \<Rightarrow>
                 (case resp_json fr of
                    Inl e \<Rightarrow> (Inl e, w1)
                  | Inr (JObj meta) \<Rightarrow>
                      (case meta_size meta of
                         Inl e \<Rightarrow> (Inl e, w1)
                       | Inr sz \<Rightarrow>
                           if \<not> truthy (meta_url meta) then (Inr cnt, w1)
                           else fetch_file c srv mod_dir (meta_name c meta fid) (meta_url meta) sz cnt w1)
                  | Inr _ \<Rightarrow> (Inl AttributeError, w1))))"

section \<open>main: the loop over the selected modules\<close>

text \<open>\<open>xs[i]\<close>: an index below zero counts from the end.\<close>

definition py_index :: "'a list \<Rightarrow> int \<Rightarrow> error + 'a" where
  "py_index xs i =
     (if 0 \<le> i \<and> i < int (length xs) then Inr (xs ! nat i)
      else if i < 0 \<and> - int (length xs) \<le> i then Inr (xs ! nat (int (length xs) + i))
      else Inl IndexError)"

text \<open>
  The head of the loop body: the module, its identifier and its directory, which is made
  unless it is there (\<open>mkdir(parents=True, exist_ok=True)\<close> fails where a file is).
\<close>

definition module_dir :: "ctx \<Rightarrow> json list \<Rightarrow> int \<Rightarrow> world \<Rightarrow> (error + json \<times> path) \<times> world" where
  "module_dir c modules choice w =
     (case py_index modules (choice - 1) of
        Inl e \<Rightarrow> (Inl e, w)
      | Inr (JObj md) \<Rightarrow>
          (case py_or (dict_get md ''name'') (JStr (''Module '' @ fmt c (JInt choice))) of
             JStr mod_title \<Rightarrow>
               (let mod_dir = path_div (base_out_dir c) (sanitize mod_title) in
                case files w mod_dir of
                  Some (File _) \<Rightarrow> (Inl OSError, w)
                | Some Dir \<Rightarrow> (Inr (dict_get md ''id'', mod_dir), w)
                | None \<Rightarrow> (Inr (dict_get md ''id'', mod_dir), w\<lparr>files := (files w)(mod_dir \<mapsto> Dir)\<rparr>))
           | _ \<Rightarrow> (Inl TypeError, w))
      | Inr _ \<Rightarrow> (Inl AttributeError, w))"

text \<open>
  The rest of the loop body, for the items that \<open>get_all\<close> returned. The sum of the
  counters of the module is added to the grand totals.
\<close>

definition module_files ::
  "ctx \<Rightarrow> server \<Rightarrow> path \<Rightarrow> json list \<Rightarrow> counts \<Rightarrow> world \<Rightarrow> (error + counts) \<times> world"
where
  "module_files c srv mod_dir items grand w =
     (if items = [] then (Inr grand, w)
      else
        (case harvest c srv items w of
           (Inl e, w1) \<Rightarrow> (Inl e, w1)
         | (Inr file_ids, w1) \<Rightarrow>
             if file_ids = {} then (Inr grand, w1)
             else
               (case for_loop (process_file c srv mod_dir) (sorted_list_of_set file_ids) (0, 0) w1 of
                  (Inl e, w2) \<Rightarrow> (Inl e, w2)
                | (Inr cnt, w2) \<Rightarrow> (Inr (fst grand + fst cnt, snd grand + snd cnt), w2))))"

text \<open>One selected module; \<open>None\<close> when \<open>get_all\<close> does not return.\<close>

definition process_module ::
  "ctx \<Rightarrow> server \<Rightarrow> json list \<Rightarrow> int \<Rightarrow> counts \<Rightarrow> world \<Rightarrow> ((error + counts) \<times> world) option"
where
  "process_module c srv modules choice grand w =
     (case module_dir c modules choice w of
        (Inl e, w1) \<Rightarrow> Some (Inl e, w1)
      | (Inr (mid, mod_dir), w1) \<Rightarrow>
          (case get_all srv (items_url c mid) (Some [(''per_page'', JInt 100)]) (trace w1) of
             None \<Rightarrow> None
           | Some (Inl e, tr) \<Rightarrow> Some (Inl e, w1\<lparr>trace := tr\<rparr>)
           | Some (Inr items, tr) \<Rightarrow> Some (module_files c srv mod_dir items grand (w1\<lparr>trace := tr\<rparr>))))"

text \<open>\<open>for choice in choices\<close>, from the totals \<open>(0, 0)\<close>.\<close>

fun run_modules ::
  "ctx \<Rightarrow> server \<Rightarrow> json list \<Rightarrow> int list \<Rightarrow> counts \<Rightarrow> world \<Rightarrow> ((error + counts) \<times> world) option"
where
  "run_modules c srv modules [] grand w = Some (Inr grand, w)"
| "run_modules c srv modules (choice # choices) grand w =
     (case process_module c srv modules choice grand w of
        None \<Rightarrow> None
      | Some (Inl e, w') \<Rightarrow> Some (Inl e, w')
      | Some (Inr grand', w') \<Rightarrow> run_modules c srv modules choices grand' w')"


text \<open>Example data: a course with two modules.\<close>

definition ok_json :: "json \<Rightarrow> response" where
  "ok_json v = \<lparr>status = 200, headers = (\<lambda>h. None), body = Some v, chunks = [], broken = False\<rparr>"

definition ok_bytes :: "string list \<Rightarrow> response" where
  "ok_bytes cs = \<lparr>status = 200, headers = (\<lambda>h. None), body = None, chunks = cs, broken = False\<rparr>"

definition failing :: "nat \<Rightarrow> response" where
  "failing code = \<lparr>status = code, headers = (\<lambda>h. None), body = None, chunks = [], broken = False\<rparr>"

definition show_id :: "json \<Rightarrow> string" where
  "show_id v = (case v of JInt n \<Rightarrow> (if n < 10 then [char_of (48 + nat n)] else ''N'') | _ \<Rightarrow> ''?'')"

definition demo_ctx :: ctx where
  "demo_ctx = \<lparr>base = ''https://c.example/api/v1'', course_id = 7, fmt = show_id,
               base_out_dir = [''Documents'', ''Course''], dir_size = 4096\<rparr>"

definition demo_modules :: "json list" where
  "demo_modules = [JObj [(''id'', JInt 1), (''name'', JStr ''Week 1'')],
                   JObj [(''id'', JInt 2), (''name'', JStr ''Week 2'')]]"

definition demo_items :: "json list" where
  "demo_items = [JObj [(''type'', JStr ''File''), (''content_id'', JInt 5)],
                 JObj [(''type'', JStr ''Page''), (''page_url'', JStr ''intro'')],
                 JObj [(''type'', JStr ''Assignment''), (''content_id'', JInt 3)]]"

definition demo_server :: server where
  "demo_server = (\<lambda>tr url ps. map_of
     [(''https://c.example/api/v1/courses/7/modules/1/items'', ok_json (JList demo_items)),
      (''https://c.example/api/v1/courses/7/modules/2/items'',
         ok_json (JList [JObj [(''type'', JStr ''File''), (''content_id'', JInt 6)]])),
      (''https://c.example/api/v1/courses/7/pages/intro'',
         ok_json (JObj [(''body'', JStr ''<a href=/files/8/download>notes</a>'')])),
      (''https://c.example/api/v1/courses/7/assignments/3'',
         ok_json (JObj [(''attachments'', JList [JObj [(''id'', JInt 9)]])])),
      (''https://c.example/api/v1/files/5'',
         ok_json (JObj [(''display_name'', JStr ''a.pdf''), (''url'', JStr ''https://dl/5''), (''size'', JInt 3)])),
      (''https://c.example/api/v1/files/6'',
         ok_json (JObj [(''display_name'', JStr ''b.pdf''), (''url'', JStr ''https://dl/6''), (''size'', JInt 2)])),
      (''https://c.example/api/v1/files/8'',
         ok_json (JObj [(''display_name'', JStr ''c: d.pdf''), (''url'', JStr ''https://dl/8'')])),
      (''https://c.example/api/v1/files/9'', failing 403),
      (''https://dl/5'', ok_bytes [''ab'', ''c'']),
      (''https://dl/6'', ok_bytes [''xy'']),
      (''https://dl/8'', failing 500)] url)"

definition empty_world :: world where
  "empty_world = \<lparr>trace = [], files = (\<lambda>p. None)\<rparr>"






definition broken_page_server :: server where
  "broken_page_server = (\<lambda>tr url ps.
     if url = ''https://c.example/api/v1/courses/7/pages/intro'' then Some (failing 500)
     else demo_server tr url ps)"


text \<open>Example data: the module of the end-to-end scenario.\<close>

definition scenario_items :: "json list" where
  "scenario_items =
     [JObj [(''type'', JStr ''File''), (''content_id'', JInt 501)],
      JObj [(''type'', JStr ''Page''), (''page_url'', JStr ''notes'')],
      JObj [(''type'', JStr ''Assignment''), (''content_id'', JInt 4)]]"

definition scenario_answers :: "string \<Rightarrow> params option \<Rightarrow> response option" where
  "scenario_answers = (\<lambda>url ps. map_of
     [(''https://c.example/api/v1/courses/7/pages/notes'',
         ok_json (JObj [(''body'', JStr ''<a href=/files/502>a</a> <a href=/api/v1/files/503>b</a>'')])),
      (''https://c.example/api/v1/courses/7/assignments/4'',
         ok_json (JObj [(''attachments'', JList [JObj [(''id'', JInt 504)]])]))] url)"

section \<open>Lemmas on stripping\<close>

lemma rstrip_split: "rev (dropWhile p (rev ys)) @ rev (takeWhile p (rev ys)) = ys"
proof -
  have "rev (takeWhile p (rev ys) @ dropWhile p (rev ys)) = ys" by simp
  then show ?thesis by (simp only: rev_append)
qed

lemma strip_where_split:
  "dropWhile p xs = strip_where p xs @ rev (takeWhile p (rev (dropWhile p xs)))"
  unfolding strip_where_def by (rule rstrip_split[symmetric])

lemma strip_where_decomp:
  "\<exists>pre post. xs = pre @ strip_where p xs @ post \<and> (\<forall>x\<in>set pre. p x) \<and> (\<forall>x\<in>set post. p x)"
proof -
  let ?ys = "dropWhile p xs"
  let ?post = "rev (takeWhile p (rev ?ys))"
  have "xs = takeWhile p xs @ ?ys" by simp
  also have "?ys = strip_where p xs @ ?post" by (rule strip_where_split)
  finally have a: "xs = takeWhile p xs @ strip_where p xs @ ?post" .
  have c: "\<forall>x\<in>set (takeWhile p xs). p x" by (auto dest: set_takeWhileD)
  have d: "\<forall>x\<in>set ?post. p x" by (auto dest: set_takeWhileD)
  from a c d show ?thesis by blast
qed

lemma strip_where_last:
  assumes "strip_where p xs \<noteq> []" shows "\<not> p (last (strip_where p xs))"
proof -
  let ?zs = "dropWhile p (rev (dropWhile p xs))"
  from assms have ne: "?zs \<noteq> []" by (simp add: strip_where_def)
  then have "\<not> p (hd ?zs)" by (rule hd_dropWhile)
  moreover have "last (strip_where p xs) = hd ?zs" using ne by (simp add: strip_where_def last_rev)
  ultimately show ?thesis by simp
qed

lemma strip_where_hd:
  assumes "strip_where p xs \<noteq> []" shows "\<not> p (hd (strip_where p xs))"
proof -
  let ?ys = "dropWhile p xs"
  have b: "?ys = strip_where p xs @ rev (takeWhile p (rev ?ys))" by (rule strip_where_split)
  have ne: "?ys \<noteq> []"
  proof
    assume "?ys = []"
    with b have "strip_where p xs @ rev (takeWhile p (rev ?ys)) = []" by (simp only:)
    with assms show False by simp
  qed
  then have "\<not> p (hd ?ys)" by (rule hd_dropWhile)
  moreover from b assms have "hd ?ys = hd (strip_where p xs)" by (metis hd_append2)
  ultimately show ?thesis by simp
qed

lemma dropWhile_unchanged: "xs \<noteq> [] \<Longrightarrow> \<not> p (hd xs) \<Longrightarrow> dropWhile p xs = xs"
  by (cases xs) auto

lemma strip_where_idem: "strip_where p (strip_where p xs) = strip_where p xs"
proof (cases "strip_where p xs = []")
  case True
  have "strip_where p [] = []" by (simp add: strip_where_def)
  with True show ?thesis by (simp only:)
next
  case False
  define zs where "zs = strip_where p xs"
  have ne: "zs \<noteq> []" using False by (simp add: zs_def)
  have h: "\<not> p (hd zs)" using False strip_where_hd[of p xs] by (simp add: zs_def)
  have l: "\<not> p (last zs)" using False strip_where_last[of p xs] by (simp add: zs_def)
  have 1: "dropWhile p zs = zs" using ne h by (rule dropWhile_unchanged)
  have "rev zs \<noteq> []" using ne by simp
  moreover have "\<not> p (hd (rev zs))" using ne l by (simp add: hd_rev)
  ultimately have 2: "dropWhile p (rev zs) = rev zs" by (rule dropWhile_unchanged)
  have "strip_where p zs = zs" by (simp add: strip_where_def 1 2)
  then show ?thesis by (simp add: zs_def)
qed

lemma strip_where_map:
  assumes "\<And>c. p (f c) = p c"
  shows "strip_where p (map f xs) = map f (strip_where p xs)"
proof -
  have pf: "p \<circ> f = p" using assms by auto
  have dm: "\<And>ys. dropWhile p (map f ys) = map f (dropWhile p ys)"
    by (simp add: dropWhile_map pf)
  have "strip_where p (map f xs) = rev (dropWhile p (rev (map f (dropWhile p xs))))"
    by (simp only: strip_where_def dm)
  also have "\<dots> = rev (dropWhile p (map f (rev (dropWhile p xs))))" by (simp only: rev_map)
  also have "\<dots> = rev (map f (dropWhile p (rev (dropWhile p xs))))" by (simp only: dm)
  also have "\<dots> = map f (strip_where p xs)" by (simp only: rev_map strip_where_def)
  finally show ?thesis .
qed


section \<open>Properties of sanitize\<close>

lemma strip_where_all:
  assumes "\<forall>x\<in>set xs. p x" shows "strip_where p xs = []"
proof -
  from assms have e: "dropWhile p xs = []" by simp
  have "strip_where p xs = rev (dropWhile p (rev (dropWhile p xs)))"
    by (simp only: strip_where_def)
  also have "\<dots> = rev (dropWhile p (rev []))" by (simp only: e)
  also have "\<dots> = []" by simp
  finally show ?thesis .
qed

lemma dot_space_not_ILLEGAL: "c \<in> set '' .'' \<Longrightarrow> \<not> ILLEGAL c"
  by (auto simp: ILLEGAL_def illegal_chars_def dquote_def backslash_def)

lemma underscore_not_ILLEGAL: "\<not> ILLEGAL (CHR ''_'')"
  by (simp add: ILLEGAL_def illegal_chars_def dquote_def backslash_def)

lemma repl_dot_space:
  "((if ILLEGAL c then CHR ''_'' else c) \<in> set '' .'') = (c \<in> set '' .'')"
  using dot_space_not_ILLEGAL[of c] by auto

lemma sanitize_alt:
  "sanitize name = map (\<lambda>c. if ILLEGAL c then CHR ''_'' else c) (strip_where (\<lambda>c. c \<in> set '' .'') name)"
  unfolding sanitize_def py_strip_chars_def re_sub_ILLEGAL_def
  by (rule strip_where_map) (rule repl_dot_space)

lemma sanitize_no_ILLEGAL: "c \<in> set (sanitize s) \<Longrightarrow> \<not> ILLEGAL c"
  using underscore_not_ILLEGAL by (auto simp: sanitize_alt)

lemma re_sub_ILLEGAL_id: "\<forall>c\<in>set xs. \<not> ILLEGAL c \<Longrightarrow> re_sub_ILLEGAL xs = xs"
  by (induction xs) (auto simp: re_sub_ILLEGAL_def)

lemma sanitize_idem: "sanitize (sanitize s) = sanitize s"
proof -
  have "re_sub_ILLEGAL (sanitize s) = sanitize s"
    by (rule re_sub_ILLEGAL_id) (auto dest: sanitize_no_ILLEGAL)
  then have "sanitize (sanitize s) = py_strip_chars '' .'' (sanitize s)"
    by (simp add: sanitize_def[of "sanitize s"])
  also have "\<dots> = sanitize s"
    unfolding sanitize_def[of s] py_strip_chars_def by (rule strip_where_idem)
  finally show ?thesis .
qed

text \<open>
  Claim C8, as the code has it. \<open>sanitize\<close> cuts a run of dots and spaces off the
  front of the name as well as off its end (\<open>str.strip\<close>, not \<open>str.rstrip\<close>); the
  part \<open>mid\<close> that is left neither starts nor ends with a dot or a space, and the
  result is \<open>mid\<close> with each character of \<open><>:"/\|?*\<close> and each character with a
  code from 0 to 31 replaced by an underscore, every other character unchanged. So
  \<open>"Week 1: Intro/Notes. "\<close> becomes \<open>"Week 1_ Intro_Notes"\<close>, and \<open>".gitignore"\<close>
  becomes \<open>"gitignore"\<close>.
\<close>

theorem sanitize_trims_both_ends:
  "(\<exists>pre mid post. name = pre @ mid @ post
      \<and> set pre \<subseteq> set '' .'' \<and> set post \<subseteq> set '' .''
      \<and> (mid = [] \<or> (hd mid \<notin> set '' .'' \<and> last mid \<notin> set '' .''))
      \<and> sanitize name =
          map (\<lambda>c. if c \<in> set illegal_chars \<or> (of_char c :: nat) \<le> 31 then CHR ''_'' else c) mid)
   \<and> sanitize ''Week 1: Intro/Notes. '' = ''Week 1_ Intro_Notes''
   \<and> sanitize ''.gitignore'' = ''gitignore''"
proof -
  let ?p = "\<lambda>c. c \<in> set '' .''"
  let ?mid = "strip_where ?p name"
  obtain pre post where d: "name = pre @ ?mid @ post" "\<forall>x\<in>set pre. ?p x" "\<forall>x\<in>set post. ?p x"
    using strip_where_decomp[of name ?p] by blast
  have ends: "?mid = [] \<or> (hd ?mid \<notin> set '' .'' \<and> last ?mid \<notin> set '' .'')"
    using strip_where_hd[of ?p name] strip_where_last[of ?p name] by blast
  have s: "sanitize name =
      map (\<lambda>c. if c \<in> set illegal_chars \<or> (of_char c :: nat) \<le> 31 then CHR ''_'' else c) ?mid"
    by (simp add: sanitize_alt ILLEGAL_def)
  from d have sub: "set pre \<subseteq> set '' .''" "set post \<subseteq> set '' .''" by blast+
  have ex1: "sanitize ''Week 1: Intro/Notes. '' = ''Week 1_ Intro_Notes''" by code_simp
  have ex2: "sanitize ''.gitignore'' = ''gitignore''" by code_simp
  from d(1) sub ends s ex1 ex2 show ?thesis by blast
qed

theorem sanitize_trims_both_ends_witness:
  "\<exists>pre mid post. '' .a:b/c. '' = pre @ mid @ post
      \<and> set pre \<subseteq> set '' .'' \<and> set post \<subseteq> set '' .''
      \<and> (mid = [] \<or> (hd mid \<notin> set '' .'' \<and> last mid \<notin> set '' .''))
      \<and> sanitize '' .a:b/c. '' =
          map (\<lambda>c. if c \<in> set illegal_chars \<or> (of_char c :: nat) \<le> 31 then CHR ''_'' else c) mid"
  by (rule conjunct1 [OF sanitize_trims_both_ends [of "'' .a:b/c. ''"]])

text \<open>
  Claim C8 as stated (only the end of the name is trimmed) fails on a name that starts
  with a dot.
\<close>

theorem sanitize_leading_dot_counterexample:
  "sanitize ''.gitignore'' \<noteq> sanitize_as_specified ''.gitignore''"
  by code_simp

text \<open>
  Claim C10, as the code has it. The result of \<open>sanitize\<close> holds none of the characters
  \<open><>:"/\|?*\<close> and no character with a code from 0 to 31; \<open>sanitize\<close> is idempotent;
  and a name made of dots and spaces only is sanitized to the empty string, for which
  the target path \<open>mod_dir / sanitize(name)\<close> is the module directory itself. The
  character DEL, code 127, is kept.
\<close>

theorem sanitize_safe_idempotent:
  "(\<forall>c\<in>set (sanitize s). c \<notin> set illegal_chars \<and> \<not> (of_char c :: nat) \<le> 31)
   \<and> sanitize (sanitize s) = sanitize s
   \<and> (set s \<subseteq> set '' .'' \<longrightarrow> sanitize s = [] \<and> path_div d (sanitize s) = d)
   \<and> sanitize [CHR 0x7F] = [CHR 0x7F]"
proof -
  have k: "sanitize [CHR 0x7F] = [CHR 0x7F]" by code_simp
  have a: "\<forall>c\<in>set (sanitize s). c \<notin> set illegal_chars \<and> \<not> (of_char c :: nat) \<le> 31"
    using sanitize_no_ILLEGAL[of _ s] by (auto simp: ILLEGAL_def)
  have c: "set s \<subseteq> set '' .'' \<longrightarrow> sanitize s = [] \<and> path_div d (sanitize s) = d"
  proof
    assume h: "set s \<subseteq> set '' .''"
    then have "strip_where (\<lambda>c. c \<in> set '' .'') s = []" by (intro strip_where_all) blast
    then have "sanitize s = []" by (simp add: sanitize_alt)
    then show "sanitize s = [] \<and> path_div d (sanitize s) = d" by (simp add: path_div_def)
  qed
  from a sanitize_idem c k show ?thesis by blast
qed

theorem sanitize_safe_idempotent_witness:
  "CHR ''_'' \<in> set (sanitize ''a:b'') \<and> CHR ''_'' \<notin> set illegal_chars
   \<and> set ''. .'' \<subseteq> set '' .'' \<and> sanitize ''. .'' = []
   \<and> path_div [''Documents'', ''Course'', ''Module 1''] (sanitize ''. .'') = [''Documents'', ''Course'', ''Module 1'']"
proof -
  have m: "CHR ''_'' \<in> set (sanitize ''a:b'')" by code_simp
  have h: "set ''. .'' \<subseteq> set '' .''" by simp
  from m h sanitize_safe_idempotent [of "''a:b''"]
    sanitize_safe_idempotent [of "''. .''" "[''Documents'', ''Course'', ''Module 1'']"]
  show ?thesis by blast
qed

text \<open>
  Claim C10 as stated (no control character is left) fails on the control character
  DEL, code 127, which the character class \<open>\x00-\x1F\<close> does not cover.
\<close>

theorem sanitize_keeps_delete_counterexample:
  "is_control (CHR 0x7F) \<and> CHR 0x7F \<in> set (sanitize [CHR ''a'', CHR 0x7F, CHR ''b''])"
  by code_simp

section \<open>Properties of parse_choices\<close>







lemma py_int_str_empty: "py_strip s = [] \<Longrightarrow> py_int_str s = None"
  by (simp add: py_int_str_def)





lemma split_on_no_sep: "sep \<notin> set tok \<Longrightarrow> split_on sep tok = [tok]"
  by (induction tok) auto











section \<open>Properties of find_file_ids_in_html\<close>

lemma digit_not_space: "is_digit c \<Longrightarrow> \<not> is_space c"
  by (auto simp: is_digit_def is_space_def Let_def)

lemma digit_not_sign: "is_digit c \<Longrightarrow> c \<noteq> CHR ''-'' \<and> c \<noteq> CHR ''+'' \<and> c \<noteq> CHR ''_''"
  by (auto simp: is_digit_def)

lemma strip_where_unchanged:
  assumes "xs \<noteq> []" "\<not> p (hd xs)" "\<not> p (last xs)"
  shows "strip_where p xs = xs"
proof -
  have 1: "dropWhile p xs = xs" using assms(1,2) by (rule dropWhile_unchanged)
  have "rev xs \<noteq> []" using assms(1) by simp
  moreover have "\<not> p (hd (rev xs))" using assms(1,3) by (simp add: hd_rev)
  ultimately have 2: "dropWhile p (rev xs) = rev xs" by (rule dropWhile_unchanged)
  show ?thesis by (simp add: strip_where_def 1 2)
qed

lemma no_double_underscore_digits: "list_all is_digit ds \<Longrightarrow> no_double_underscore ds"
proof (induction ds rule: no_double_underscore.induct)
  case (1 a b cs)
  then show ?case using digit_not_sign[of a] by simp
qed simp_all

lemma py_int_str_digits:
  assumes "ds \<noteq> []" "list_all is_digit ds"
  shows "py_int_str ds = Some (digits_value ds)"
proof -
  from assms have h: "is_digit (hd ds)" and l: "is_digit (last ds)"
    by (auto simp: list_all_iff)
  have s: "py_strip ds = ds"
    unfolding py_strip_def using assms(1) h l by (intro strip_where_unchanged) (auto dest: digit_not_space)
  have f: "filter is_digit ds = ds" using assms(2) by (simp add: list_all_iff)
  have v: "valid_digits ds"
    using assms h l no_double_underscore_digits[OF assms(2)]
    by (auto simp: valid_digits_def list_all_iff)
  obtain c r where cr: "ds = c # r" using assms(1) by (cases ds) auto
  with h have "c \<noteq> CHR ''-''" "c \<noteq> CHR ''+''" using digit_not_sign[of c] by auto
  then show ?thesis using s v f cr by (simp add: py_int_str_def py_digits_def)
qed

lemma finditer_digits_groups:
  "g \<in> set (finditer_digits lit s) \<Longrightarrow> g \<noteq> [] \<and> list_all is_digit g"
proof (induction lit s rule: finditer_digits.induct)
  case (1 lit)
  then show ?case by simp
next
  case (2 lit c cs)
  show ?case
  proof (cases "digit_follows lit (c # cs)")
    case False
    with 2 show ?thesis by simp
  next
    case True
    then obtain d r where dr: "drop (length lit) (c # cs) = d # r" and d: "is_digit d"
      by (auto simp: digit_follows_def split: list.splits)
    have "takeWhile is_digit (drop (length lit) (c # cs)) \<noteq> []" using dr d by simp
    moreover have "list_all is_digit (takeWhile is_digit (drop (length lit) (c # cs)))"
      by (auto simp: list_all_iff dest: set_takeWhileD)
    ultimately show ?thesis using 2 True by auto
  qed
qed

lemma fold_add_id:
  "\<forall>g\<in>set gs. g \<noteq> [] \<and> list_all is_digit g \<Longrightarrow> fold add_id gs ids = ids \<union> digits_value ` set gs"
proof (induction gs arbitrary: ids)
  case Nil
  then show ?case by simp
next
  case (Cons g gs)
  then have "add_id g ids = insert (digits_value g) ids"
    by (simp add: add_id_def py_int_str_digits)
  with Cons show ?case by auto
qed

lemma find_file_ids_in_html_groups:
  "find_file_ids_in_html html =
     digits_value ` set (finditer_digits ''/files/'' html)
     \<union> digits_value ` set (finditer_digits ''/api/v1/files/'' html)"
  unfolding find_file_ids_in_html_def
  by (simp add: fold_add_id finditer_digits_groups)


lemma occurrences_Nil: "occurrences lit [] = []"
  by (simp add: occurrences_def digit_follows_def)

lemma set_occurrences: "set (occurrences lit s) = {t. suffix t s \<and> digit_follows lit t}"
  by (auto simp: occurrences_def)

lemma digit_follows_split:
  assumes "digit_follows lit s"
  defines "ds \<equiv> takeWhile is_digit (drop (length lit) s)"
    and "rest \<equiv> dropWhile is_digit (drop (length lit) s)"
  shows "s = lit @ ds @ rest" "ds \<noteq> []" "list_all is_digit ds"
proof -
  from assms(1) have p: "prefix lit s" by (simp add: digit_follows_def)
  then have "s = lit @ drop (length lit) s" by (auto simp: prefix_def)
  also have "drop (length lit) s = ds @ rest" by (simp add: ds_def rest_def)
  finally show "s = lit @ ds @ rest" .
  from assms(1) obtain d r where "drop (length lit) s = d # r" "is_digit d"
    by (auto simp: digit_follows_def split: list.splits)
  then show "ds \<noteq> []" by (simp add: ds_def)
  show "list_all is_digit ds" by (auto simp: ds_def list_all_iff dest: set_takeWhileD)
qed

lemma no_inner_occurrence:
  assumes no: "no_overlap lit"
    and s: "s = lit @ ds @ rest" and ds: "ds \<noteq> []" "list_all is_digit ds"
    and t: "suffix t s" "t \<noteq> s" "digit_follows lit t"
  shows "suffix t rest"
proof (rule ccontr)
  assume ns: "\<not> suffix t rest"
  have "suffix rest s" by (simp add: s suffix_def)
  with t(1) ns have "suffix rest t" using suffix_same_cases by blast
  then obtain zs where zs: "t = zs @ rest" by (auto simp: suffix_def)
  with ns have zne: "zs \<noteq> []" by auto
  from t(1) have "suffix (zs @ rest) ((lit @ ds) @ rest)" by (simp add: zs s)
  then have sz: "suffix zs (lit @ ds)" by (simp only: same_suffix_suffix)
  from t(2) have zneq: "zs \<noteq> lit @ ds" by (auto simp: zs s)
  from no have lne: "lit \<noteq> []" and hl: "\<not> is_digit (hd lit)" by (auto simp: no_overlap_def)
  from t(3) have pl: "prefix lit t" by (simp add: digit_follows_def)
  have dig: "suffix zs ds \<Longrightarrow> False"
  proof -
    assume "suffix zs ds"
    then have "set zs \<subseteq> set ds" by (rule set_mono_suffix)
    moreover from zne have "hd zs \<in> set zs" by (rule hd_in_set)
    ultimately have "hd zs \<in> set ds" by blast
    with ds(2) have "is_digit (hd zs)" by (simp add: list_all_iff)
    moreover have "hd t = hd zs" using zne by (simp add: zs)
    moreover from pl lne have "hd lit = hd t" by (auto simp: prefix_def)
    ultimately show False using hl by simp
  qed
  from sz consider "suffix zs ds" | ls where "zs = ls @ ds" "suffix ls lit"
    by (auto simp: suffix_append)
  then show False
  proof cases
    case 1
    then show False by (rule dig)
  next
    case 2
    show False
    proof (cases "ls = []")
      case True
      with 2 have "suffix zs ds" by simp
      then show False by (rule dig)
    next
      case False
      from zneq 2 have lneq: "ls \<noteq> lit" by auto
      from 2(2) lneq have len: "length ls < length lit"
        by (metis suffix_length_le suffix_order.antisym_conv2 le_neq_implies_less suffix_def length_append add_cancel_left_left length_0_conv append_Nil)
      from pl have "prefix lit (ls @ (ds @ rest))" by (simp add: zs 2)
      then consider "prefix lit ls" | us where "lit = ls @ us" "prefix us (ds @ rest)"
        by (auto simp: prefix_append)
      then show False
      proof cases
        case 1
        then have "length lit \<le> length ls" by (rule prefix_length_le)
        with len show False by simp
      next
        case b: 2
        from b(1) len have une: "us \<noteq> []" by auto
        with b(2) ds(1) have "hd us = hd ds" by (auto simp: prefix_def neq_Nil_conv)
        moreover from ds have "is_digit (hd ds)" by (auto simp: list_all_iff)
        moreover from b(1) une have "lit ! length ls = hd us" by (simp add: nth_append hd_conv_nth)
        ultimately have d: "is_digit (lit ! length ls)" by simp
        from b(1) have pre: "prefix ls lit" by simp
        from 2(2) have "ls \<in> set (suffixes lit)" by simp
        with no have "ls = [] \<or> ls = lit \<or> \<not> prefix ls lit \<or> \<not> is_digit (lit ! length ls)"
          by (auto simp: no_overlap_def list_all_iff)
        with False lneq pre d show False by blast
      qed
    qed
  qed
qed

lemma finditer_digits_occurrences:
  "no_overlap lit \<Longrightarrow>
   set (finditer_digits lit s)
     = (\<lambda>t. takeWhile is_digit (drop (length lit) t)) ` set (occurrences lit s)"
proof (induction lit s rule: finditer_digits.induct)
  case (1 lit)
  then show ?case by (simp add: occurrences_Nil)
next
  case (2 lit c cs)
  note no = "2.prems"
  let ?s = "c # cs"
  have occ: "set (occurrences lit ?s)
      = set (occurrences lit cs) \<union> (if digit_follows lit ?s then {?s} else {})"
    by (auto simp: occurrences_def)
  show ?case
  proof (cases "digit_follows lit ?s")
    case False
    with 2 occ show ?thesis by simp
  next
    case True
    let ?rest = "dropWhile is_digit (drop (length lit) ?s)"
    note sp = digit_follows_split[OF True]
    have "set (occurrences lit cs) = set (occurrences lit ?rest)"
    proof (rule set_eqI)
      fix t
      show "t \<in> set (occurrences lit cs) \<longleftrightarrow> t \<in> set (occurrences lit ?rest)"
      proof
        assume "t \<in> set (occurrences lit cs)"
        then have a: "suffix t cs" "digit_follows lit t" by (auto simp: set_occurrences)
        then have st: "suffix t ?s" by (simp add: suffix_Cons)
        from a(1) have tne: "t \<noteq> ?s"
          using suffix_length_le by fastforce
        have "suffix t ?rest"
          by (rule no_inner_occurrence[OF no sp(1) sp(2) sp(3) st tne a(2)])
        with a(2) show "t \<in> set (occurrences lit ?rest)" by (simp add: set_occurrences)
      next
        assume "t \<in> set (occurrences lit ?rest)"
        then have a: "suffix t ?rest" "digit_follows lit t" by (auto simp: set_occurrences)
        have "lit \<noteq> []" using no by (simp add: no_overlap_def)
        then have "drop (length lit) ?s = drop (length lit - 1) cs" by (cases lit) auto
        then have "suffix ?rest cs"
          by (metis suffix_dropWhile suffix_drop suffix_order.trans)
        with a(1) have "suffix t cs" using suffix_order.trans by blast
        with a(2) show "t \<in> set (occurrences lit cs)" by (simp add: set_occurrences)
      qed
    qed
    then show ?thesis using 2 True occ by simp
  qed
qed


lemma no_overlap_files: "no_overlap ''/files/''"
  by code_simp

lemma no_overlap_api_files: "no_overlap ''/api/v1/files/''"
  by code_simp

lemma finditer_digits_referenced:
  "no_overlap lit \<Longrightarrow> digits_value ` set (finditer_digits lit html) = referenced_ids lit html"
  by (simp add: finditer_digits_occurrences referenced_ids_def referenced_id_def image_image)

lemma find_file_ids_in_html_referenced:
  "find_file_ids_in_html html
     = referenced_ids ''/files/'' html \<union> referenced_ids ''/api/v1/files/'' html"
  using finditer_digits_referenced[OF no_overlap_files, of html]
    finditer_digits_referenced[OF no_overlap_api_files, of html]
  by (simp only: find_file_ids_in_html_groups)




section \<open>Reading the Link header\<close>

lemma split_on_append_sep:
  "sep \<notin> set a \<Longrightarrow> split_on sep (a @ sep # b) = a # split_on sep b"
  by (induction a) auto

lemma strip_where_between:
  assumes "\<forall>x\<in>set pre. p x" "\<forall>x\<in>set post. p x" "\<forall>x\<in>set xs. \<not> p x"
  shows "strip_where p (pre @ xs @ post) = xs"
proof -
  have 1: "dropWhile p (pre @ xs @ post) = dropWhile p (xs @ post)"
    using assms(1) by (simp add: dropWhile_append2)
  have u: "strip_where p (pre @ xs @ post) = rev (dropWhile p (rev (dropWhile p (xs @ post))))"
    by (simp only: strip_where_def 1)
  show ?thesis
  proof (cases xs)
    case Nil
    from assms(2) have e: "dropWhile p post = []" by simp
    have "rev (dropWhile p (rev (dropWhile p ([] @ post)))) = rev (dropWhile p (rev []))"
      by (simp only: append_Nil e)
    also have "\<dots> = []" by simp
    finally show ?thesis using u Nil by (simp only:)
  next
    case (Cons x xs')
    with assms(3) have 2: "dropWhile p (xs @ post) = xs @ post" by simp
    have "dropWhile p (rev (xs @ post)) = dropWhile p (rev post @ rev xs)" by simp
    also have "\<dots> = dropWhile p (rev xs)" using assms(2) by (intro dropWhile_append2) auto
    also have "\<dots> = rev xs"
    proof (rule dropWhile_unchanged)
      show ne: "rev xs \<noteq> []" using Cons by simp
      then have "hd (rev xs) \<in> set (rev xs)" by (rule hd_in_set)
      with assms(3) show "\<not> p (hd (rev xs))" by simp
    qed
    finally have "rev (dropWhile p (rev (xs @ post))) = xs" by simp
    then show ?thesis using u by (simp only: 2)
  qed
qed

lemma strip_where_skip: "p x \<Longrightarrow> strip_where p (x # ys) = strip_where p ys"
  by (simp add: strip_where_def)

lemma clean_chars:
  assumes "clean s" "c \<in> set s"
  shows "c \<noteq> CHR '',''" "c \<noteq> CHR '';''" "c \<noteq> CHR ''<''" "c \<noteq> CHR ''>''" "c \<noteq> CHR '' ''" "c \<noteq> dquote"
  using assms by (auto simp: clean_def list_all_iff)

lemma link_entry_split:
  assumes "clean u" "clean r"
  shows "split_on (CHR '';'') (link_entry (u, r)) = [''<'' @ u @ ''>'', '' rel='' @ [dquote] @ r @ [dquote]]"
proof -
  have a: "CHR '';'' \<notin> set (''<'' @ u @ ''>'')" using clean_chars(2)[OF assms(1)] by auto
  have b: "CHR '';'' \<notin> set ('' rel='' @ [dquote] @ r @ [dquote])"
    using clean_chars(2)[OF assms(2)] by (auto simp: dquote_def)
  have "link_entry (u, r) = (''<'' @ u @ ''>'') @ CHR '';'' # ('' rel='' @ [dquote] @ r @ [dquote])"
    by (simp add: link_entry_def)
  then show ?thesis using split_on_append_sep[OF a] split_on_no_sep[OF b] by simp
qed

lemma py_strip_href: "py_strip (''<'' @ u @ ''>'') = ''<'' @ u @ ''>''"
  unfolding py_strip_def
  by (rule strip_where_unchanged) (simp_all add: is_space_def)

lemma py_strip_rel:
  "py_strip ('' rel='' @ [dquote] @ r @ [dquote]) = ''rel='' @ [dquote] @ r @ [dquote]"
proof -
  have "strip_where is_space (''rel='' @ [dquote] @ r @ [dquote]) = ''rel='' @ [dquote] @ r @ [dquote]"
    by (rule strip_where_unchanged) (simp_all add: is_space_def dquote_def)
  moreover have "is_space (CHR '' '')" by (simp add: is_space_def)
  ultimately show ?thesis by (simp add: py_strip_def strip_where_skip)
qed

lemma href_of_entry: "clean u \<Longrightarrow> py_strip_chars ''<> '' (''<'' @ u @ ''>'') = u"
  unfolding py_strip_chars_def
  using clean_chars(3,4,5)[of u]
  by (intro strip_where_between) auto

lemma rel_of_entry:
  assumes "clean r"
  shows "rel_of [''rel='' @ [dquote] @ r @ [dquote]] = Some r"
proof -
  have sf: "snd (split_first (CHR ''='') (''rel='' @ [dquote] @ r @ [dquote])) = [dquote] @ r @ [dquote]"
    by (simp add: split_first_def)
  have "strip_where (\<lambda>c. c \<in> set [dquote]) ([dquote] @ r @ [dquote]) = r"
    using clean_chars(6)[OF assms] by (intro strip_where_between) auto
  then show ?thesis by (simp add: rel_of_def sf py_strip_chars_def del: append.simps)
qed

lemma link_part_entry:
  assumes "clean u" "clean r"
  shows "link_part (link_entry (u, r)) nxt = (if r = ''next'' then Some u else nxt)"
proof -
  have segs: "map py_strip (split_on (CHR '';'') (link_entry (u, r)))
                = [''<'' @ u @ ''>'', ''rel='' @ [dquote] @ r @ [dquote]]"
    by (simp only: link_entry_split[OF assms] list.map py_strip_href py_strip_rel)
  show ?thesis
    unfolding link_part_def segs Let_def
    using href_of_entry[OF assms(1)] rel_of_entry[OF assms(2)] by simp
qed

lemma link_entry_no_comma: "clean u \<Longrightarrow> clean r \<Longrightarrow> CHR '','' \<notin> set (link_entry (u, r))"
  using clean_chars(1)[of u] clean_chars(1)[of r] by (auto simp: link_entry_def dquote_def)

lemma split_link_header:
  "clean_links ls \<Longrightarrow> ls \<noteq> [] \<Longrightarrow> split_on (CHR '','') (link_header ls) = map link_entry ls"
proof (induction ls rule: link_header.induct)
  case 1
  then show ?case by simp
next
  case (2 l)
  then have "CHR '','' \<notin> set (link_entry l)"
    using link_entry_no_comma[of "fst l" "snd l"] by (simp add: clean_links_def)
  then show ?case by (simp add: split_on_no_sep)
next
  case (3 l l' ls)
  then have nc: "CHR '','' \<notin> set (link_entry l)"
    using link_entry_no_comma[of "fst l" "snd l"] by (simp add: clean_links_def)
  from 3 have "split_on (CHR '','') (link_header (l' # ls)) = map link_entry (l' # ls)"
    by (simp add: clean_links_def)
  then show ?case using split_on_append_sep[OF nc, of "link_header (l' # ls)"] by simp
qed

lemma fold_link_part:
  "clean_links ls \<Longrightarrow>
   fold link_part (map link_entry ls) nxt
     = fold (\<lambda>l nxt. if snd l = ''next'' then Some (fst l) else nxt) ls nxt"
proof (induction ls arbitrary: nxt)
  case Nil
  then show ?case by simp
next
  case (Cons l ls)
  then have c: "clean (fst l)" "clean (snd l)" "clean_links ls" by (simp_all add: clean_links_def)
  have "link_part (link_entry l) nxt = (if snd l = ''next'' then Some (fst l) else nxt)"
    using link_part_entry[OF c(1,2), of nxt] by simp
  then show ?case using Cons.IH[OF c(3)] by simp
qed

lemma next_link_link_header: "clean_links ls \<Longrightarrow> next_link (link_header ls) = rel_next ls"
proof (cases "ls = []")
  case True
  have "next_link [] = None" by (simp add: next_link_def link_part_def)
  then show ?thesis using True by (simp add: rel_next_def)
next
  case False
  assume "clean_links ls"
  then show ?thesis using False
    by (simp add: next_link_def rel_next_def split_link_header fold_link_part)
qed


section \<open>Properties of get_all\<close>

lemma get_all_step_stop:
  "get_all_step srv (None, ps, acc, tr) = Inl (Inr acc, tr)"
  "get_all_step srv (Some [], ps, acc, tr) = Inl (Inr acc, tr)"
  by (simp_all add: get_all_step_def)

lemma get_all_step_page:
  assumes "u \<noteq> []" "srv tr u ps = Some r" "page_ok r" "carries_links r ls"
  shows "get_all_step srv (Some u, ps, acc, tr)
           = Inr (rel_next ls, None, acc @ records r, tr @ [Get u ps])"
proof -
  from assms(3) have st: "raise_for_status r = Inr ()"
    by (auto simp: page_ok_def raise_for_status_def)
  from assms(3) obtain data where b: "body r = Some data" "page_records data = Inr (records r)"
    by (auto simp: page_ok_def records_def split: option.splits json.splits)
  from assms(4) have "next_link (case headers r ''Link'' of None \<Rightarrow> [] | Some l \<Rightarrow> l) = rel_next ls"
    using next_link_link_header[of ls] next_link_link_header[of "[]"]
    by (auto simp: carries_links_def)
  then show ?thesis using assms(1,2) st b
    by (simp add: get_all_step_def resp_json_def Let_def)
qed

lemma get_all_loop_stop: "get_all_loop srv (None, ps, acc, tr) = Some (Inr acc, tr)"
  by (subst get_all_loop.simps) (simp add: get_all_step_stop)

lemma get_all_loop_chain:
  "chain srv tr ps pages \<Longrightarrow>
   get_all_loop srv (Some (fst (hd pages)), ps, acc, tr)
     = Some (Inr (acc @ concat (map (\<lambda>p. records (snd (snd p))) pages)), tr @ requests_of ps pages)"
proof (induction srv tr ps pages arbitrary: acc rule: chain.induct)
  case (1 srv tr ps)
  then show ?case by simp
next
  case (2 srv tr ps u ls r)
  then have "get_all_step srv (Some u, ps, acc, tr)
               = Inr (None, None, acc @ records r, tr @ [Get u ps])"
    using get_all_step_page[of u srv tr ps r ls acc] by simp
  then show ?case
    by (subst get_all_loop.simps) (simp add: get_all_loop_stop)
next
  case (3 srv tr ps u ls r u' ls' r' rest)
  then have step: "get_all_step srv (Some u, ps, acc, tr)
               = Inr (Some u', None, acc @ records r, tr @ [Get u ps])"
    using get_all_step_page[of u srv tr ps r ls acc] by simp
  from 3 have ch: "chain srv (tr @ [Get u ps]) None ((u', ls', r') # rest)" by simp
  have "get_all_loop srv (Some u, ps, acc, tr)
          = get_all_loop srv (Some u', None, acc @ records r, tr @ [Get u ps])"
    by (subst get_all_loop.simps) (simp add: step)
  also have "\<dots> = Some (Inr ((acc @ records r) @ concat (map (\<lambda>p. records (snd (snd p))) ((u', ls', r') # rest))),
                 (tr @ [Get u ps]) @ requests_of None ((u', ls', r') # rest))"
    using "3.IH"[OF ch, of "acc @ records r"] by simp
  finally show ?case by simp
qed

lemma get_all_steps_leaves:
  "get_all_steps srv n st = Inl res \<Longrightarrow> get_all_loop srv st = Some res"
proof (induction n arbitrary: st)
  case 0
  then show ?case by simp
next
  case (Suc n)
  show ?case
  proof (cases "get_all_step srv st")
    case (Inl r)
    with Suc.prems have "r = res" by simp
    with Inl show ?thesis by (subst get_all_loop.simps) simp
  next
    case (Inr st')
    with Suc.prems have "get_all_steps srv n st' = Inl res" by simp
    then have "get_all_loop srv st' = Some res" by (rule Suc.IH)
    with Inr show ?thesis by (subst get_all_loop.simps) simp
  qed
qed

lemma get_all_loop_returns:
  assumes "get_all_loop srv st = Some res"
  shows "\<exists>n. get_all_steps srv n st = Inl res"
proof (rule get_all_loop.raw_induct
         [where P = "\<lambda>srv st res. \<exists>n. get_all_steps srv n st = Inl res", OF _ assms])
  fix loop :: "server \<Rightarrow> loop_state \<Rightarrow> json list outcome option"
    and srv st res
  assume IH: "\<And>srv st res. loop srv st = Some res \<Longrightarrow> \<exists>n. get_all_steps srv n st = Inl res"
    and eq: "(case get_all_step srv st of Inl r \<Rightarrow> Some r | Inr st' \<Rightarrow> loop srv st') = Some res"
  show "\<exists>n. get_all_steps srv n st = Inl res"
  proof (cases "get_all_step srv st")
    case (Inl r)
    with eq have "get_all_steps srv (Suc 0) st = Inl res" by simp
    then show ?thesis by blast
  next
    case (Inr st')
    with eq have "loop srv st' = Some res" by simp
    then obtain n where "get_all_steps srv n st' = Inl res" using IH by blast
    with Inr have "get_all_steps srv (Suc n) st = Inl res" by simp
    then show ?thesis by blast
  qed
qed

lemma get_all_loop_None:
  "get_all_loop srv st = None \<longleftrightarrow> (\<forall>n. \<exists>st'. get_all_steps srv n st = Inr st')"
proof
  assume n: "get_all_loop srv st = None"
  show "\<forall>n. \<exists>st'. get_all_steps srv n st = Inr st'"
  proof
    fix k
    show "\<exists>st'. get_all_steps srv k st = Inr st'"
    proof (cases "get_all_steps srv k st")
      case (Inl res)
      then have "get_all_loop srv st = Some res" by (rule get_all_steps_leaves)
      with n show ?thesis by simp
    next
      case (Inr st')
      then show ?thesis by blast
    qed
  qed
next
  assume a: "\<forall>n. \<exists>st'. get_all_steps srv n st = Inr st'"
  show "get_all_loop srv st = None"
  proof (cases "get_all_loop srv st")
    case None
    then show ?thesis .
  next
    case (Some res)
    then obtain n where "get_all_steps srv n st = Inl res" using get_all_loop_returns by blast
    with a show ?thesis by (metis sum.distinct(1))
  qed
qed



lemma three_pages_chain:
  "chain (serve three_pages) [] (Some [(''per_page'', JInt 100)]) three_pages"
  by (simp add: three_pages_def serve_def mk_page_def page_ok_def carries_links_def
        clean_links_def clean_def dquote_def rel_next_def)


lemma get_all_steps_Suc_right:
  "get_all_steps srv (Suc n) st
     = (case get_all_steps srv n st of Inl r \<Rightarrow> Inl r | Inr s \<Rightarrow> get_all_step srv s)"
proof (induction n arbitrary: st)
  case 0
  then show ?case by (simp split: sum.splits)
next
  case (Suc n)
  show ?case
  proof (cases "get_all_step srv st")
    case (Inl r)
    then show ?thesis by simp
  next
    case (Inr st')
    then have "get_all_steps srv (Suc (Suc n)) st = get_all_steps srv (Suc n) st'" by simp
    also have "\<dots> = (case get_all_steps srv n st' of Inl r \<Rightarrow> Inl r | Inr s \<Rightarrow> get_all_step srv s)"
      by (rule Suc.IH)
    also have "get_all_steps srv n st' = get_all_steps srv (Suc n) st" using Inr by simp
    finally show ?thesis .
  qed
qed

lemma get_all_step_goes_on:
  assumes "get_all_step srv (url, ps, rs, tr) = Inr st'"
  shows "\<exists>u. url = Some u \<and> u \<noteq> []"
proof (cases url)
  case None
  with assms show ?thesis by (simp add: get_all_step_stop)
next
  case (Some u)
  with assms show ?thesis by (cases "u = []") (simp_all add: get_all_step_stop)
qed

lemma never_leaves_iff:
  "(\<forall>n. \<exists>st'. get_all_steps srv n st = Inr st')
   \<longleftrightarrow> (\<forall>n. \<exists>u ps rs tr'. get_all_steps srv n st = Inr (Some u, ps, rs, tr') \<and> u \<noteq> [])"
proof
  assume a: "\<forall>n. \<exists>st'. get_all_steps srv n st = Inr st'"
  show "\<forall>n. \<exists>u ps rs tr'. get_all_steps srv n st = Inr (Some u, ps, rs, tr') \<and> u \<noteq> []"
  proof
    fix n
    from a obtain url ps rs tr' where n: "get_all_steps srv n st = Inr (url, ps, rs, tr')"
      by (metis prod_cases4)
    from a obtain st' where "get_all_steps srv (Suc n) st = Inr st'" by blast
    then have "get_all_step srv (url, ps, rs, tr') = Inr st'"
      by (simp only: get_all_steps_Suc_right n sum.case)
    then obtain u where "url = Some u" "u \<noteq> []" using get_all_step_goes_on by blast
    with n show "\<exists>u ps rs tr'. get_all_steps srv n st = Inr (Some u, ps, rs, tr') \<and> u \<noteq> []"
      by blast
  qed
next
  assume "\<forall>n. \<exists>u ps rs tr'. get_all_steps srv n st = Inr (Some u, ps, rs, tr') \<and> u \<noteq> []"
  then show "\<forall>n. \<exists>st'. get_all_steps srv n st = Inr st'" by blast
qed

lemma self_link_steps:
  assumes "u \<noteq> []" "clean u" "page_ok r" "headers r ''Link'' = Some (link_header [(u, ''next'')])"
  shows "\<exists>rs tr'. get_all_steps (always r) n (Some u, params, [], tr)
                     = Inr (Some u, if n = 0 then params else None, rs, tr')
                   \<and> length tr' = length tr + n"
proof (induction n)
  case 0
  then show ?case by simp
next
  case (Suc n)
  then obtain rs tr' where
    n: "get_all_steps (always r) n (Some u, params, [], tr)
          = Inr (Some u, if n = 0 then params else None, rs, tr')"
    and l: "length tr' = length tr + n" by blast
  let ?ps = "if n = 0 then params else None"
  have cl: "carries_links r [(u, ''next'')]"
    using assms(2,4) by (simp add: carries_links_def clean_links_def clean_def dquote_def)
  have "get_all_step (always r) (Some u, ?ps, rs, tr')
          = Inr (rel_next [(u, ''next'')], None, rs @ records r, tr' @ [Get u ?ps])"
    by (rule get_all_step_page[OF assms(1) _ assms(3) cl]) (simp add: always_def)
  then have "get_all_steps (always r) (Suc n) (Some u, params, [], tr)
          = Inr (Some u, None, rs @ records r, tr' @ [Get u ?ps])"
    by (simp only: get_all_steps_Suc_right n sum.case) (simp add: rel_next_def)
  then show ?case using l by simp
qed

text \<open>
  Claim C9. \<open>get_all\<close> has no bound on the number of pages. It does not return exactly
  when, after every number of requests, there is one more non-empty URL to follow; it
  returns whenever the pages form a finite chain; and on a page whose \<open>next\<close> link is the
  page's own URL the loop never ends: for every \<open>n\<close> it makes an \<open>n\<close>-th request.
\<close>

theorem get_all_unbounded:
  "(get_all srv url params tr = None
      \<longleftrightarrow> (\<forall>n. \<exists>u ps rs tr'. get_all_steps srv n (Some url, params, [], tr) = Inr (Some u, ps, rs, tr')
                \<and> u \<noteq> []))
   \<and> (chain srv tr params pages \<and> fst (hd pages) = url
        \<longrightarrow> (\<exists>res. get_all srv url params tr = Some res))
   \<and> (u \<noteq> [] \<and> clean u \<and> page_ok r \<and> headers r ''Link'' = Some (link_header [(u, ''next'')])
        \<longrightarrow> get_all (always r) u params tr = None
          \<and> (\<forall>n. \<exists>rs tr'. get_all_steps (always r) n (Some u, params, [], tr)
                              = Inr (Some u, if n = 0 then params else None, rs, tr')
                            \<and> length tr' = length tr + n))"
proof -
  have a: "get_all srv url params tr = None
      \<longleftrightarrow> (\<forall>n. \<exists>u ps rs tr'. get_all_steps srv n (Some url, params, [], tr) = Inr (Some u, ps, rs, tr')
                \<and> u \<noteq> [])"
    unfolding get_all_def by (simp only: get_all_loop_None never_leaves_iff)
  have b: "chain srv tr params pages \<and> fst (hd pages) = url
        \<longrightarrow> (\<exists>res. get_all srv url params tr = Some res)"
    unfolding get_all_def using get_all_loop_chain[of srv tr params pages "[]"] by auto
  have c: "u \<noteq> [] \<and> clean u \<and> page_ok r \<and> headers r ''Link'' = Some (link_header [(u, ''next'')])
        \<longrightarrow> get_all (always r) u params tr = None
          \<and> (\<forall>n. \<exists>rs tr'. get_all_steps (always r) n (Some u, params, [], tr)
                              = Inr (Some u, if n = 0 then params else None, rs, tr')
                            \<and> length tr' = length tr + n)"
  proof
    assume h: "u \<noteq> [] \<and> clean u \<and> page_ok r \<and> headers r ''Link'' = Some (link_header [(u, ''next'')])"
    then have s: "\<And>n. \<exists>rs tr'. get_all_steps (always r) n (Some u, params, [], tr)
                              = Inr (Some u, if n = 0 then params else None, rs, tr')
                            \<and> length tr' = length tr + n"
      using self_link_steps[of u r _ params tr] by blast
    then have "\<forall>n. \<exists>st'. get_all_steps (always r) n (Some u, params, [], tr) = Inr st'" by blast
    then have "get_all_loop (always r) (Some u, params, [], tr) = None"
      by (rule get_all_loop_None[THEN iffD2])
    then have "get_all (always r) u params tr = None" by (simp only: get_all_def)
    with s show "get_all (always r) u params tr = None
          \<and> (\<forall>n. \<exists>rs tr'. get_all_steps (always r) n (Some u, params, [], tr)
                              = Inr (Some u, if n = 0 then params else None, rs, tr')
                            \<and> length tr' = length tr + n)" by blast
  qed
  from a b c show ?thesis by blast
qed

theorem get_all_unbounded_witness:
  "get_all (always (mk_page [(''https://c.example/api/v1/courses'', ''next'')] (JList [JObj [(''id'', JInt 1)]])))
     ''https://c.example/api/v1/courses'' (Some [(''per_page'', JInt 100)]) [] = None
   \<and> (\<exists>rs tr'. get_all_steps
         (always (mk_page [(''https://c.example/api/v1/courses'', ''next'')] (JList [JObj [(''id'', JInt 1)]])))
         1000 (Some ''https://c.example/api/v1/courses'', Some [(''per_page'', JInt 100)], [], [])
          = Inr (Some ''https://c.example/api/v1/courses'', None, rs, tr') \<and> length tr' = 1000)
   \<and> (\<exists>res. get_all (serve three_pages) ''https://c.example/api/v1/courses''
                (Some [(''per_page'', JInt 100)]) [] = Some res)"
proof -
  let ?u = "''https://c.example/api/v1/courses''"
  let ?r = "mk_page [(?u, ''next'')] (JList [JObj [(''id'', JInt 1)]])"
  let ?ps = "Some [(''per_page'', JInt 100)]"
  have h: "?u \<noteq> [] \<and> clean ?u \<and> page_ok ?r \<and> headers ?r ''Link'' = Some (link_header [(?u, ''next'')])"
    by (simp add: clean_def dquote_def page_ok_def mk_page_def)
  have k: "chain (serve three_pages) [] ?ps three_pages \<and> fst (hd three_pages) = ?u"
    using three_pages_chain by (simp add: three_pages_def)
  from get_all_unbounded [of "serve three_pages" ?u ?ps "[]" three_pages ?u ?r] h k
  have 1: "get_all (always ?r) ?u ?ps [] = None"
    and 2: "\<forall>n. \<exists>rs tr'. get_all_steps (always ?r) n (Some ?u, ?ps, [], [])
                              = Inr (Some ?u, if n = 0 then ?ps else None, rs, tr')
                            \<and> length tr' = length ([]::event list) + n"
    and 3: "\<exists>res. get_all (serve three_pages) ?u ?ps [] = Some res"
    by blast+
  from 2 have "\<exists>rs tr'. get_all_steps (always ?r) 1000 (Some ?u, ?ps, [], [])
                              = Inr (Some ?u, if (1000::nat) = 0 then ?ps else None, rs, tr')
                            \<and> length tr' = length ([]::event list) + 1000" by (rule spec)
  then have "\<exists>rs tr'. get_all_steps (always ?r) 1000 (Some ?u, ?ps, [], [])
                              = Inr (Some ?u, None, rs, tr') \<and> length tr' = 1000" by simp
  with 1 3 show ?thesis by blast
qed

section \<open>Properties of download_to\<close>






section \<open>Properties of the loop over the files\<close>




lemma process_file_resolved:
  assumes "srv (trace w) (file_url c fid) None = Some fr" "status fr \<noteq> 403"
    "\<not> (400 \<le> status fr \<and> status fr < 600)" "body fr = Some (JObj meta)"
    "meta_size meta = Inr sz" "truthy (meta_url meta)"
  shows "process_file c srv mod_dir fid cnt w
           = fetch_file c srv mod_dir (meta_name c meta fid) (meta_url meta) sz cnt
               (w\<lparr>trace := trace w @ [Get (file_url c fid) None]\<rparr>)"
  using assms by (auto simp: process_file_def session_get_def raise_for_status_def resp_json_def)



lemma fetch_file_download:
  assumes "\<not> (\<exists>nd. files w target = Some nd \<and> sz \<noteq> 0 \<and> st_size c nd = sz)"
    "target = path_div mod_dir (sanitize nm)"
  shows "fetch_file c srv mod_dir (JStr nm) url sz (d, k) w
           = (case download_to srv (py_str c url) target w of
                (Inr u, w') \<Rightarrow> (Inr (d + 1, k), w')
              | (Inl e, w') \<Rightarrow> if is_RequestException e then (Inr (d, k), w') else (Inl e, w'))"
  using assms by (auto simp: fetch_file_def Let_def split: option.splits prod.splits sum.splits)



lemma demo_file_url: "file_url demo_ctx 5 = ''https://c.example/api/v1/files/5''"
  "file_url demo_ctx 8 = ''https://c.example/api/v1/files/8''"
  by code_simp+


section \<open>Errors in the loops over files and modules\<close>

text \<open>
  Claim C5 as stated fails for an error in the harvesting of a module: the page of the
  first of two selected modules answers with the status 500, and the run ends with that
  error after two requests; nothing is requested for the second module.
\<close>

theorem harvest_error_ends_run_counterexample:
  "run_modules demo_ctx broken_page_server demo_modules [1, 2] (0, 0) empty_world \<noteq> None
   \<and> fst (the (run_modules demo_ctx broken_page_server demo_modules [1, 2] (0, 0) empty_world))
       = Inl (HTTPError 500)
   \<and> trace (snd (the (run_modules demo_ctx broken_page_server demo_modules [1, 2] (0, 0) empty_world)))
       = [Get ''https://c.example/api/v1/courses/7/modules/1/items'' (Some [(''per_page'', JInt 100)]),
          Get ''https://c.example/api/v1/courses/7/pages/intro'' None]"
  by code_simp


text \<open>
  Claim C5, as the code has it. A \<open>RequestException\<close> that \<open>download_to\<close> raises for one
  file is caught: the counters stay as they were and the loop goes on with the remaining
  files, from the state the failed download left; a module whose loops end without an
  exception is followed by the remaining modules. An exception of the harvesting of a
  module is not caught: it ends the loop over the modules.
\<close>

theorem download_failure_contained:
  assumes "srv (trace w) (file_url c fid) None = Some fr"
    and "status fr \<noteq> 403" and "\<not> (400 \<le> status fr \<and> status fr < 600)"
    and "body fr = Some (JObj meta)" and "meta_size meta = Inr sz"
    and "truthy (meta_url meta)" and "meta_name c meta fid = JStr nm"
    and "\<not> (\<exists>nd. files w (path_div mod_dir (sanitize nm)) = Some nd \<and> sz \<noteq> 0 \<and> st_size c nd = sz)"
    and "download_to srv (py_str c (meta_url meta)) (path_div mod_dir (sanitize nm))
           (w\<lparr>trace := trace w @ [Get (file_url c fid) None]\<rparr>) = (Inl e, w2)"
    and "is_RequestException e"
  shows "process_file c srv mod_dir fid cnt w = (Inr cnt, w2)
    \<and> for_loop (process_file c srv mod_dir) (fid # fids) cnt w
        = for_loop (process_file c srv mod_dir) fids cnt w2
    \<and> (\<forall>grand' w'. process_module c srv modules choice grand w0 = Some (Inr grand', w')
          \<longrightarrow> run_modules c srv modules (choice # choices) grand w0
              = run_modules c srv modules choices grand' w')
    \<and> (\<forall>items e' w'. items \<noteq> [] \<and> harvest c srv items w0 = (Inl e', w')
          \<longrightarrow> module_files c srv mod_dir items grand w0 = (Inl e', w'))
    \<and> (\<forall>e' w'. process_module c srv modules choice grand w0 = Some (Inl e', w')
          \<longrightarrow> run_modules c srv modules (choice # choices) grand w0 = Some (Inl e', w'))"
proof -
  obtain d k where cnt: "cnt = (d, k)" by (cases cnt)
  have "process_file c srv mod_dir fid (d, k) w
          = fetch_file c srv mod_dir (JStr nm) (meta_url meta) sz (d, k)
              (w\<lparr>trace := trace w @ [Get (file_url c fid) None]\<rparr>)"
    using process_file_resolved[of srv w c fid fr meta sz mod_dir "(d, k)"] assms(1-7) by simp
  also have "\<dots> = (Inr (d, k), w2)"
    using assms(8-10)
    by (subst fetch_file_download[of _ "path_div mod_dir (sanitize nm)"]) simp_all
  finally have a: "process_file c srv mod_dir fid cnt w = (Inr cnt, w2)" by (simp add: cnt)
  then have b: "for_loop (process_file c srv mod_dir) (fid # fids) cnt w
        = for_loop (process_file c srv mod_dir) fids cnt w2" by simp
  have m: "\<forall>grand' w'. process_module c srv modules choice grand w0 = Some (Inr grand', w')
          \<longrightarrow> run_modules c srv modules (choice # choices) grand w0
              = run_modules c srv modules choices grand' w'" by simp
  have h: "\<forall>items e' w'. items \<noteq> [] \<and> harvest c srv items w0 = (Inl e', w')
          \<longrightarrow> module_files c srv mod_dir items grand w0 = (Inl e', w')"
    by (simp add: module_files_def)
  have r: "\<forall>e' w'. process_module c srv modules choice grand w0 = Some (Inl e', w')
          \<longrightarrow> run_modules c srv modules (choice # choices) grand w0 = Some (Inl e', w')" by simp
  from a b m h r show ?thesis by blast
qed

theorem download_failure_contained_witness:
  "process_file demo_ctx demo_server [''Documents'', ''Course'', ''Week 1''] 8 (1, 0) empty_world
     = (Inr (1, 0),
        empty_world\<lparr>trace := trace empty_world
                        @ [Get ''https://c.example/api/v1/files/8'' None, Get ''https://dl/8'' None]\<rparr>)
   \<and> fst (harvest demo_ctx broken_page_server demo_items empty_world) = Inl (HTTPError 500)
   \<and> fst (module_files demo_ctx broken_page_server [''Documents'', ''Course'', ''Week 1'']
             demo_items (0, 0) empty_world) = Inl (HTTPError 500)"
proof -
  let ?meta = "[(''display_name'', JStr ''c: d.pdf''), (''url'', JStr ''https://dl/8'')]"
  let ?fr = "ok_json (JObj ?meta)"
  let ?dir = "[''Documents'', ''Course'', ''Week 1'']"
  let ?w2 = "empty_world\<lparr>trace := trace empty_world
                        @ [Get ''https://c.example/api/v1/files/8'' None, Get ''https://dl/8'' None]\<rparr>"
  have s: "demo_server (trace empty_world) (file_url demo_ctx 8) None = Some ?fr"
    by (simp add: demo_file_url demo_server_def)
  have h: "status ?fr \<noteq> 403" "\<not> (400 \<le> status ?fr \<and> status ?fr < 600)" "body ?fr = Some (JObj ?meta)"
    "meta_size ?meta = Inr 0" "truthy (meta_url ?meta)" "meta_name demo_ctx ?meta 8 = JStr ''c: d.pdf''"
    by (simp_all add: ok_json_def meta_size_def meta_url_def meta_name_def py_or_def dict_get_def)
  have no: "\<not> (\<exists>nd. files empty_world (path_div ?dir (sanitize ''c: d.pdf'')) = Some nd \<and> (0::int) \<noteq> 0
                \<and> st_size demo_ctx nd = 0)"
    by simp
  have u: "py_str demo_ctx (meta_url ?meta) = ''https://dl/8''"
    by (simp add: py_str_def meta_url_def py_or_def dict_get_def)
  have dl: "download_to demo_server (py_str demo_ctx (meta_url ?meta)) (path_div ?dir (sanitize ''c: d.pdf''))
           (empty_world\<lparr>trace := trace empty_world @ [Get (file_url demo_ctx 8) None]\<rparr>)
         = (Inl (HTTPError 500), ?w2)"
    by (simp add: u demo_file_url download_to_def session_get_def demo_server_def failing_def
          raise_for_status_def)
  have rq: "is_RequestException (HTTPError 500)" by simp
  have hv: "fst (harvest demo_ctx broken_page_server demo_items empty_world) = Inl (HTTPError 500)"
    by code_simp
  have ne: "demo_items \<noteq> []" by (simp add: demo_items_def)
  from download_failure_contained
         [of demo_server empty_world demo_ctx 8 ?fr ?meta 0 "''c: d.pdf''" ?dir "HTTPError 500" ?w2
             "(1, 0)" "[]" demo_modules 1 "(0, 0)" empty_world "[2]", OF s h no dl rq]
  have 1: "process_file demo_ctx demo_server ?dir 8 (1, 0) empty_world = (Inr (1, 0), ?w2)"
    by blast
  have "fst (module_files demo_ctx broken_page_server ?dir demo_items (0, 0) empty_world)
          = Inl (HTTPError 500)"
    by code_simp
  with 1 hv show ?thesis by simp
qed


section \<open>Properties of the harvest\<close>

lemma for_loop_union:
  assumes "\<And>x s w. x \<in> set xs \<Longrightarrow> fst (step x s w) = Inr (s \<union> g x)"
  shows "fst (for_loop step xs s w) = Inr (s \<union> \<Union> (g ` set xs))"
  using assms
proof (induction xs arbitrary: s w)
  case Nil
  then show ?case by simp
next
  case (Cons x xs)
  have "fst (step x s w) = Inr (s \<union> g x)" using Cons.prems by simp
  then obtain w' where st: "step x s w = (Inr (s \<union> g x), w')" by (cases "step x s w") auto
  have "fst (for_loop step xs (s \<union> g x) w') = Inr ((s \<union> g x) \<union> \<Union> (g ` set xs))"
    using Cons.prems by (intro Cons.IH) simp
  then show ?case using st by (simp add: Un_assoc)
qed

text \<open>
  Claim C1. For a module with a File item of content id 501, a Page item whose fetched
  body references exactly the files 502 and 503 (as \<open>/files/502\<close> and
  \<open>/api/v1/files/503\<close>), and an Assignment item whose fetched attachments are
  \<open>[{"id": 504}]\<close>, the harvest is the set \<open>{501, 502, 503, 504}\<close>; and the three
  loops give this set in whatever order they run.
\<close>

theorem harvest_scenario:
  assumes "set items = {JObj fi, JObj pi, JObj ai}"
    and "dict_get fi ''type'' = JStr ''File''" and "dict_get fi ''content_id'' = JInt 501"
    and "dict_get pi ''type'' = JStr ''Page''" and "truthy (dict_get pi ''page_url'')"
    and "f (page_url c (dict_get pi ''page_url'')) None = Some pr"
    and "status pr \<noteq> 403" and "\<not> (400 \<le> status pr \<and> status pr < 600)"
    and "body pr = Some (JObj pd)" and "dict_get pd ''body'' = JStr html"
    and "referenced_ids ''/files/'' html \<union> referenced_ids ''/api/v1/files/'' html = {502, 503}"
    and "dict_get ai ''type'' = JStr ''Assignment''" and "truthy (dict_get ai ''content_id'')"
    and "f (assignment_url c (dict_get ai ''content_id'')) None = Some ar"
    and "status ar \<noteq> 403" and "\<not> (400 \<le> status ar \<and> status ar < 600)"
    and "body ar = Some (JObj ad)"
    and "dict_get ad ''attachments'' = JList [JObj [(''id'', JInt 504)]]"
    and "set strategies = {DirectFiles, PageLinks, Attachments}"
  shows "fst (harvest_in strategies c (\<lambda>tr. f) items w) = Inr {501, 502, 503, 504}
       \<and> fst (harvest c (\<lambda>tr. f) items w) = Inr {501, 502, 503, 504}"
proof -
  let ?srv = "\<lambda>tr::event list. f"
  have ne: "fi \<noteq> pi" "fi \<noteq> ai" "pi \<noteq> ai" using assms(2,4,12) by auto
  have html: "find_file_ids_in_html html = {502, 503}"
    using assms(11) by (simp only: find_file_ids_in_html_referenced)
  have pb: "page_body pr = Inr html"
    using assms(8,9,10)
    by (auto simp: page_body_def raise_for_status_def resp_json_def py_get_def py_or_def)
  have aa: "assignment_attachments ar = Inr [JObj [(''id'', JInt 504)]]"
    using assms(16,17,18)
    by (auto simp: assignment_attachments_def raise_for_status_def resp_json_def py_get_def
          py_or_def iterate_def)
  define gA where "gA = (\<lambda>it. if it = JObj fi then {501::int} else {})"
  define gB where "gB = (\<lambda>it. if it = JObj pi then {502, 503::int} else {})"
  define gC where "gC = (\<lambda>it. if it = JObj ai then {504::int} else {})"
  have A: "fst (direct_file it ids w') = Inr (ids \<union> gA it)" if "it \<in> set items" for it ids w'
  proof -
    from that assms(1) consider "it = JObj fi" | "it = JObj pi" | "it = JObj ai" by auto
    then show ?thesis
      using ne assms(2,3,4,12) by cases (simp_all add: direct_file_def gA_def)
  qed
  have B: "fst (page_links c ?srv it ids w') = Inr (ids \<union> gB it)" if "it \<in> set items" for it ids w'
  proof -
    from that assms(1) consider "it = JObj fi" | "it = JObj pi" | "it = JObj ai" by auto
    then show ?thesis
    proof cases
      case 2
      then show ?thesis
        using assms(4,5,6,7) pb html by (simp add: page_links_def session_get_def gB_def)
    qed (use ne assms(2,12) in \<open>simp_all add: page_links_def gB_def\<close>)
  qed
  have C: "fst (attachments c ?srv it ids w') = Inr (ids \<union> gC it)" if "it \<in> set items" for it ids w'
  proof -
    from that assms(1) consider "it = JObj fi" | "it = JObj pi" | "it = JObj ai" by auto
    then show ?thesis
    proof cases
      case 3
      then show ?thesis
        using assms(12,13,14,15) aa
        by (simp add: attachments_def session_get_def gC_def attachment_def py_get_def dict_get_def)
    qed (use ne assms(2,4) in \<open>simp_all add: attachments_def gC_def\<close>)
  qed
  have uA: "\<Union> (gA ` set items) = {501}" using ne by (auto simp: assms(1) gA_def)
  have uB: "\<Union> (gB ` set items) = {502, 503}" using ne by (auto simp: assms(1) gB_def)
  have uC: "\<Union> (gC ` set items) = {504}" using ne by (auto simp: assms(1) gC_def)
  define G where "G = (\<lambda>s. case s of DirectFiles \<Rightarrow> {501::int} | PageLinks \<Rightarrow> {502, 503}
                                | Attachments \<Rightarrow> {504})"
  have S: "fst (run_strategy c ?srv items s ids w') = Inr (ids \<union> G s)" for s ids w'
  proof (cases s)
    case DirectFiles
    then show ?thesis
      using for_loop_union[of items direct_file gA ids w'] A by (simp add: uA G_def)
  next
    case PageLinks
    then show ?thesis
      using for_loop_union[of items "page_links c ?srv" gB ids w'] B by (simp add: uB G_def)
  next
    case Attachments
    then show ?thesis
      using for_loop_union[of items "attachments c ?srv" gC ids w'] C by (simp add: uC G_def)
  qed
  have all: "fst (harvest_in ss c ?srv items w) = Inr (\<Union> (G ` set ss))" for ss
    unfolding harvest_in_def
    using for_loop_union[of ss "run_strategy c ?srv items" G "{}" w] S by simp
  have "\<Union> (G ` {DirectFiles, PageLinks, Attachments}) = {501, 502, 503, 504}"
    by (auto simp: G_def)
  then show ?thesis
    using all[of strategies] all[of "[DirectFiles, PageLinks, Attachments]"] assms(19)
    by (simp add: harvest_def)
qed


theorem harvest_scenario_witness:
  "fst (harvest_in [Attachments, DirectFiles, PageLinks] demo_ctx (\<lambda>tr. scenario_answers)
          scenario_items empty_world) = Inr {501, 502, 503, 504}
   \<and> fst (harvest demo_ctx (\<lambda>tr. scenario_answers) scenario_items empty_world)
       = Inr {501, 502, 503, 504}"
proof -
  let ?fi = "[(''type'', JStr ''File''), (''content_id'', JInt 501)]"
  let ?pi = "[(''type'', JStr ''Page''), (''page_url'', JStr ''notes'')]"
  let ?ai = "[(''type'', JStr ''Assignment''), (''content_id'', JInt 4)]"
  let ?html = "''<a href=/files/502>a</a> <a href=/api/v1/files/503>b</a>''"
  let ?pd = "[(''body'', JStr ?html)]"
  let ?ad = "[(''attachments'', JList [JObj [(''id'', JInt 504)]])]"
  have i: "set scenario_items = {JObj ?fi, JObj ?pi, JObj ?ai}" by (simp add: scenario_items_def)
  have u: "page_url demo_ctx (dict_get ?pi ''page_url'') = ''https://c.example/api/v1/courses/7/pages/notes''"
    "assignment_url demo_ctx (dict_get ?ai ''content_id'') = ''https://c.example/api/v1/courses/7/assignments/4''"
    by code_simp+
  have p: "scenario_answers (page_url demo_ctx (dict_get ?pi ''page_url'')) None = Some (ok_json (JObj ?pd))"
    unfolding u by (simp add: scenario_answers_def)
  have a: "scenario_answers (assignment_url demo_ctx (dict_get ?ai ''content_id'')) None
             = Some (ok_json (JObj ?ad))"
    unfolding u by (simp add: scenario_answers_def)
  have r: "referenced_ids ''/files/'' ?html \<union> referenced_ids ''/api/v1/files/'' ?html = {502, 503}"
    by code_simp
  have d: "dict_get ?fi ''type'' = JStr ''File''" "dict_get ?fi ''content_id'' = JInt 501"
    "dict_get ?pi ''type'' = JStr ''Page''" "truthy (dict_get ?pi ''page_url'')"
    "dict_get ?ai ''type'' = JStr ''Assignment''" "truthy (dict_get ?ai ''content_id'')"
    "dict_get ?pd ''body'' = JStr ?html"
    "dict_get ?ad ''attachments'' = JList [JObj [(''id'', JInt 504)]]"
    by (simp_all add: dict_get_def)
  have st: "status (ok_json (JObj ?pd)) \<noteq> 403"
    "\<not> (400 \<le> status (ok_json (JObj ?pd)) \<and> status (ok_json (JObj ?pd)) < 600)"
    "body (ok_json (JObj ?pd)) = Some (JObj ?pd)"
    "status (ok_json (JObj ?ad)) \<noteq> 403"
    "\<not> (400 \<le> status (ok_json (JObj ?ad)) \<and> status (ok_json (JObj ?ad)) < 600)"
    "body (ok_json (JObj ?ad)) = Some (JObj ?ad)"
    by (simp_all add: ok_json_def)
  have o: "set [Attachments, DirectFiles, PageLinks] = {DirectFiles, PageLinks, Attachments}"
    by auto
  show ?thesis
    by (rule harvest_scenario
          [of scenario_items ?fi ?pi ?ai scenario_answers demo_ctx "ok_json (JObj ?pd)" ?pd ?html
              "ok_json (JObj ?ad)" ?ad "[Attachments, DirectFiles, PageLinks]" empty_world,
           OF i d(1) d(2) d(3) d(4) p st(1) st(2) st(3) d(7) r d(5) d(6) a st(4) st(5) st(6) d(8) o])
qed

end
